theory Spec2Isabelle
  imports Main "HOL-Library.AList"
begin

section \<open>The separator extension: witnessed intervals and goal-post reconciliation\<close>

text \<open>
  A shallow embedding of \<^verbatim>\<open>src/Extensions/separator.js\<close>. Post IDs and interval endpoints
  are JavaScript numbers that the code only ever compares; they are modelled as \<open>int\<close>,
  with \<open>Number.isSafeInteger\<close> as an explicit range check. An interval \<open>[lower, upper]\<close>
  is a pair, so the \<open>Array.isArray\<close> and \<open>length === 2\<close> tests of the validity check
  hold by typing.
\<close>

subsection \<open>Generic helper functions\<close>

type_synonym interval = "int \<times> int"

definition MAX_SAFE_INTEGER :: int where
  "MAX_SAFE_INTEGER = 9007199254740991"

definition isSafeInteger :: "int \<Rightarrow> bool" where
  "isSafeInteger v = (- MAX_SAFE_INTEGER \<le> v \<and> v \<le> MAX_SAFE_INTEGER)"

definition isSafePositiveInteger :: "int \<Rightarrow> bool" where
  "isSafePositiveInteger v = (isSafeInteger v \<and> v > 0)"

text \<open>
  The loop of \<open>areSortedDisjointSafeIntegerIntervals\<close>. \<open>prevUpperEndpoint\<close> starts
  at \<open>Number.NEGATIVE_INFINITY\<close>, which is \<open>None\<close> here.
\<close>

fun areSortedFrom :: "int option \<Rightarrow> interval list \<Rightarrow> bool" where
  "areSortedFrom prevUpperEndpoint [] = True"
| "areSortedFrom prevUpperEndpoint ((lowerEndpoint, upperEndpoint) # rest) =
     (if \<not> (isSafeInteger lowerEndpoint \<and> isSafeInteger upperEndpoint) then False
      else if \<not> ((case prevUpperEndpoint of None \<Rightarrow> True | Some p \<Rightarrow> p < lowerEndpoint)
                  \<and> lowerEndpoint < upperEndpoint) then False
      else areSortedFrom (Some upperEndpoint) rest)"

definition areSortedDisjointSafeIntegerIntervals :: "interval list \<Rightarrow> bool" where
  "areSortedDisjointSafeIntegerIntervals intervals = areSortedFrom None intervals"

text \<open>
  The loop of \<open>addToSortedDisjointSafeIntegerIntervals\<close>, over the intervals still to be
  visited. The result is \<open>(spliceStart, spliceDeleteCount, preservedEndpoints,
  newLowerEndpoint, newUpperEndpoint)\<close> at loop exit; \<open>continue\<close> is the first branch,
  \<open>break\<close> the second.
\<close>

fun addLoop :: "nat \<Rightarrow> nat \<Rightarrow> nat \<Rightarrow> int \<Rightarrow> int \<Rightarrow> interval list
    \<Rightarrow> nat \<times> nat \<times> nat \<times> int \<times> int" where
  "addLoop spliceStart spliceDeleteCount preservedEndpoints newLowerEndpoint newUpperEndpoint [] =
     (spliceStart, spliceDeleteCount, preservedEndpoints, newLowerEndpoint, newUpperEndpoint)"
| "addLoop spliceStart spliceDeleteCount preservedEndpoints newLowerEndpoint newUpperEndpoint
       ((oldLowerEndpoint, oldUpperEndpoint) # rest) =
     (if oldUpperEndpoint < newLowerEndpoint then
        addLoop (spliceStart + 1) spliceDeleteCount preservedEndpoints
          newLowerEndpoint newUpperEndpoint rest
      else if newUpperEndpoint < oldLowerEndpoint then
        (spliceStart, spliceDeleteCount, preservedEndpoints, newLowerEndpoint, newUpperEndpoint)
      else
        let (newLowerEndpoint1, preservedEndpoints1) =
              (if oldLowerEndpoint \<le> newLowerEndpoint \<and> newLowerEndpoint \<le> oldUpperEndpoint
               then (oldLowerEndpoint, preservedEndpoints + 1)
               else (newLowerEndpoint, preservedEndpoints));
            (newUpperEndpoint1, preservedEndpoints2) =
              (if oldLowerEndpoint \<le> newUpperEndpoint \<and> newUpperEndpoint \<le> oldUpperEndpoint
               then (oldUpperEndpoint, preservedEndpoints1 + 1)
               else (newUpperEndpoint, preservedEndpoints1))
        in addLoop spliceStart (spliceDeleteCount + 1) preservedEndpoints2
             newLowerEndpoint1 newUpperEndpoint1 rest)"

text \<open>
  \<open>Array.prototype.splice(start, deleteCount, item)\<close>; \<open>take\<close> and \<open>drop\<close> clamp
  at the end of the list exactly as \<open>splice\<close> clamps \<open>start\<close> and \<open>deleteCount\<close>.
\<close>

definition arraySplice :: "'a list \<Rightarrow> nat \<Rightarrow> nat \<Rightarrow> 'a \<Rightarrow> 'a list" where
  "arraySplice xs start deleteCount item = take start xs @ [item] @ drop (start + deleteCount) xs"

text \<open>
  \<open>addToSortedDisjointSafeIntegerIntervals\<close> mutates \<open>intervals\<close> in place and returns
  \<open>updated\<close>; the model returns \<open>updated\<close> together with the array after the call.
\<close>

definition addToSortedDisjointSafeIntegerIntervals ::
    "interval list \<Rightarrow> interval \<Rightarrow> bool \<times> interval list" where
  "addToSortedDisjointSafeIntegerIntervals intervals interval =
     (case addLoop 0 0 0 (fst interval) (snd interval) intervals of
        (spliceStart, spliceDeleteCount, preservedEndpoints, newLowerEndpoint, newUpperEndpoint) \<Rightarrow>
          let updated = (\<not> (spliceDeleteCount = 1 \<and> preservedEndpoints = 2))
          in if updated
             then (updated, arraySplice intervals spliceStart spliceDeleteCount
                              (newLowerEndpoint, newUpperEndpoint))
             else (updated, intervals))"

text \<open>The loop of \<open>indexOfIntervalContainingValue\<close>; falling out of the loop returns \<open>-1\<close>.\<close>

fun indexLoop :: "nat \<Rightarrow> interval list \<Rightarrow> int \<Rightarrow> int" where
  "indexLoop index [] v = - 1"
| "indexLoop index ((lowerEndpoint, upperEndpoint) # rest) v =
     (if upperEndpoint < v then indexLoop (index + 1) rest v
      else if v < lowerEndpoint then - 1
      else int index)"

definition indexOfIntervalContainingValue :: "interval list \<Rightarrow> int \<Rightarrow> int" where
  "indexOfIntervalContainingValue intervals v = indexLoop 0 intervals v"

subsection \<open>Cursors and their validity\<close>

text \<open>
  A cursors object: \<open>goalPostId\<close> is a number or \<open>null\<close> (\<open>None\<close>);
  \<open>witnessedPostIds\<close> is the array of witnessed intervals. \<open>adjacencyHints\<close> is the
  \<open>Map\<close> from timestamps to post IDs of the tagged context, as its entries in insertion
  order; the dashboard's cursors objects have no such property, and the dashboard's functions
  never read or write the field.
\<close>

record cursors =
  goalPostId :: "int option"
  witnessedPostIds :: "interval list"
  adjacencyHints :: "(int \<times> int) list"

definition validCursors :: "cursors \<Rightarrow> bool" where
  "validCursors c =
     (case goalPostId c of
        Some g \<Rightarrow>
          if isSafePositiveInteger g
          then areSortedDisjointSafeIntegerIntervals ((0, g) # witnessedPostIds c)
          else False
      | None \<Rightarrow> length (witnessedPostIds c) = 0)"

text \<open>The \<open>for (const [timestamp, postId] of adjacencyHints)\<close> loop of \<open>validTaggedCursors\<close>.\<close>

fun hintsLoop :: "interval list \<Rightarrow> (int \<times> int) list \<Rightarrow> bool" where
  "hintsLoop witnessed [] = True"
| "hintsLoop witnessed ((timestamp, postId) # rest) =
     (if \<not> (isSafePositiveInteger timestamp \<and> isSafePositiveInteger postId) then False
      else if indexOfIntervalContainingValue witnessed postId = - 1 then False
      else hintsLoop witnessed rest)"

definition validTaggedCursors :: "cursors \<Rightarrow> bool" where
  "validTaggedCursors c =
     (if \<not> validCursors c then False
      else if length (witnessedPostIds c) = 0 then length (adjacencyHints c) = 0
      else hintsLoop (witnessedPostIds c) (adjacencyHints c))"

subsection \<open>Storage\<close>

text \<open>
  What is kept under a cursors key: the JSON array \<open>[goalPostId, witnessedPostIds]\<close> of the
  dashboard, or \<open>[goalPostId, witnessedPostIds, rawAdjacencyHints]\<close> of a tagged view.
  \<open>JSON.stringify\<close> followed by \<open>JSON.parse\<close> is the identity on such arrays of safe
  integers and \<open>null\<close>, so the array itself stands for its text.
\<close>

datatype stored = Stored2 "int option" "interval list"
  | Stored3 "int option" "interval list" "(int \<times> int) list"

text \<open>
  Modelled from the spec: \<open>XKit.storage\<close> is not among the sources; the spec gives its
  interface as \<open>get(namespace, key, default) -> value\<close> and \<open>set(namespace, key, value)\<close>.
  The store of the \<open>separator\<close> namespace is the list of its \<open>set\<close> calls, newest
  first, so that a call that persists anything is visible as a longer list.
\<close>

type_synonym storage = "(string \<times> stored) list"

definition storageSet :: "storage \<Rightarrow> string \<Rightarrow> stored \<Rightarrow> storage" where
  "storageSet st key v = (key, v) # st"

definition storageGet :: "storage \<Rightarrow> string \<Rightarrow> stored \<Rightarrow> stored" where
  "storageGet st key dflt = (case map_of st key of None \<Rightarrow> dflt | Some v \<Rightarrow> v)"

text \<open>\<open>new Map(entries)\<close>: \<open>Map.prototype.set\<close> is \<open>AList.update\<close>, applied entry by entry.\<close>

definition newMap :: "(int \<times> int) list \<Rightarrow> (int \<times> int) list" where
  "newMap entries = fold (\<lambda>(k, v) m. AList.update k v m) entries []"

subsection \<open>Contexts\<close>

text \<open>
  What \<open>initContext\<close> reads from the page: the flags of \<open>XKit.interface.where()\<close>, the
  numbers the path and query string convert to (\<open>None\<close> when \<open>Number(...)\<close> is not an
  integer), the base64 text of the tag element (\<open>None\<close> when the element is missing), and
  the \<open>before\<close> timestamp of the next-page link (\<open>None\<close> when there is no link or the
  number is not an integer).
\<close>

record page =
  whereDashboard :: bool
  whereTagged :: bool
  whereEndless :: bool
  pathPageNumber :: "int option"
  pathSignedPostId :: "int option"
  tagBase64 :: "string option"
  searchBefore :: "int option"
  nextPageBefore :: "int option"

text \<open>The object \<open>initContext\<close> returns when \<open>shouldContinue\<close> is true.\<close>

record ctx =
  mayDefer :: bool
  isFirstPage :: bool
  augmentWithAdjacencyHints :: "cursors \<Rightarrow> interval \<Rightarrow> interval"
  updateAdjacencyHints :: "cursors \<Rightarrow> int list \<Rightarrow> cursors"
  loadCursors :: "storage \<Rightarrow> string + cursors"
  saveCursors :: "cursors \<Rightarrow> storage \<Rightarrow> string + storage"

definition augmentIdentity :: "cursors \<Rightarrow> interval \<Rightarrow> interval" where
  "augmentIdentity c witnessed = witnessed"

definition dashboardIsFirstPage :: "page \<Rightarrow> bool" where
  "dashboardIsFirstPage pg =
     (case pathPageNumber pg of
        None \<Rightarrow> True
      | Some pageNumber \<Rightarrow> \<not> (isSafePositiveInteger pageNumber \<and> pageNumber > 1))"

definition dashboardAugment :: "page \<Rightarrow> cursors \<Rightarrow> interval \<Rightarrow> interval" where
  "dashboardAugment pg =
     (if dashboardIsFirstPage pg then augmentIdentity
      else case pathSignedPostId pg of
        None \<Rightarrow> augmentIdentity
      | Some signedPostId \<Rightarrow>
          if isSafeInteger signedPostId \<and> signedPostId \<noteq> 0 then
            let postId = \<bar>signedPostId\<bar> in
            if signedPostId > 0 then
              (\<lambda>c (oldestWitnessedPostId, newestWitnessedPostId).
                 if indexOfIntervalContainingValue (witnessedPostIds c) postId \<noteq> - 1
                 then (oldestWitnessedPostId, postId)
                 else (oldestWitnessedPostId, newestWitnessedPostId))
            else
              (\<lambda>c (oldestWitnessedPostId, newestWitnessedPostId).
                 if indexOfIntervalContainingValue (witnessedPostIds c) postId \<noteq> - 1
                 then (postId, newestWitnessedPostId)
                 else (oldestWitnessedPostId, newestWitnessedPostId))
          else augmentIdentity)"

definition dashboardLoadCursors :: "storage \<Rightarrow> string + cursors" where
  "dashboardLoadCursors st =
     (let c = (case storageGet st ''cursors:dashboard'' (Stored2 None []) of
                 Stored2 g w \<Rightarrow> \<lparr>goalPostId = g, witnessedPostIds = w, adjacencyHints = []\<rparr>
               | Stored3 g w h \<Rightarrow> \<lparr>goalPostId = g, witnessedPostIds = w, adjacencyHints = []\<rparr>)
      in if \<not> validCursors c then Inl ''Loaded invalid cursors'' else Inr c)"

definition dashboardSaveCursors :: "cursors \<Rightarrow> storage \<Rightarrow> string + storage" where
  "dashboardSaveCursors c st =
     (if \<not> validCursors c then Inl ''Attempted to save invalid cursors''
      else Inr (storageSet st ''cursors:dashboard''
                  (Stored2 (goalPostId c) (witnessedPostIds c))))"

definition dashboardContext :: "page \<Rightarrow> ctx" where
  "dashboardContext pg =
     \<lparr>mayDefer = whereEndless pg,
      isFirstPage = dashboardIsFirstPage pg,
      augmentWithAdjacencyHints = dashboardAugment pg,
      updateAdjacencyHints = (\<lambda>c postIds. c),
      loadCursors = dashboardLoadCursors,
      saveCursors = dashboardSaveCursors\<rparr>"

definition taggedIsFirstPage :: "page \<Rightarrow> bool" where
  "taggedIsFirstPage pg =
     (case searchBefore pg of
        None \<Rightarrow> True
      | Some pageTimestamp \<Rightarrow> \<not> isSafePositiveInteger pageTimestamp)"

definition taggedAugment :: "page \<Rightarrow> cursors \<Rightarrow> interval \<Rightarrow> interval" where
  "taggedAugment pg =
     (case searchBefore pg of
        None \<Rightarrow> augmentIdentity
      | Some pageTimestamp \<Rightarrow>
          if isSafePositiveInteger pageTimestamp then
            (\<lambda>c (oldestWitnessedPostId, newestWitnessedPostId).
               case map_of (adjacencyHints c) pageTimestamp of
                 Some postId \<Rightarrow>
                   if indexOfIntervalContainingValue (witnessedPostIds c) postId \<noteq> - 1
                   then (oldestWitnessedPostId, postId)
                   else (oldestWitnessedPostId, newestWitnessedPostId)
               | None \<Rightarrow> (oldestWitnessedPostId, newestWitnessedPostId))
          else augmentIdentity)"

text \<open>
  \<open>updateAdjacencyHints\<close> of the tagged context. \<open>reconcile\<close> is its only caller and
  returns before any call when \<open>postIds\<close> is empty, so \<open>postIds[postIds.length - 1]\<close> is
  always the last element.
\<close>

definition taggedUpdateAdjacencyHints :: "page \<Rightarrow> cursors \<Rightarrow> int list \<Rightarrow> cursors" where
  "taggedUpdateAdjacencyHints pg c postIds =
     (if length (witnessedPostIds c) = 0 then c\<lparr>adjacencyHints := []\<rparr>
      else case nextPageBefore pg of
        None \<Rightarrow> c
      | Some nextPageTimestamp \<Rightarrow>
          if isSafePositiveInteger nextPageTimestamp then
            let oldestWitnessedPostId = last postIds
            in c\<lparr>adjacencyHints :=
                   AList.update nextPageTimestamp oldestWitnessedPostId (adjacencyHints c)\<rparr>
          else c)"

definition taggedLoadCursors :: "string \<Rightarrow> storage \<Rightarrow> string + cursors" where
  "taggedLoadCursors storageKey st =
     (let c = (case storageGet st storageKey (Stored3 None [] []) of
                 Stored2 g w \<Rightarrow>
                   \<lparr>goalPostId = g, witnessedPostIds = w, adjacencyHints = newMap []\<rparr>
               | Stored3 g w rawAdjacencyHints \<Rightarrow>
                   \<lparr>goalPostId = g, witnessedPostIds = w,
                    adjacencyHints = newMap rawAdjacencyHints\<rparr>)
      in if \<not> validTaggedCursors c then Inl ''Loaded invalid cursors'' else Inr c)"

definition taggedSaveCursors :: "string \<Rightarrow> cursors \<Rightarrow> storage \<Rightarrow> string + storage" where
  "taggedSaveCursors storageKey c st =
     (if \<not> validTaggedCursors c then Inl ''Attempted to save invalid cursors''
      else Inr (storageSet st storageKey
                  (Stored3 (goalPostId c) (witnessedPostIds c) (adjacencyHints c))))"

definition taggedContext :: "string \<Rightarrow> page \<Rightarrow> ctx" where
  "taggedContext storageKey pg =
     \<lparr>mayDefer = whereEndless pg,
      isFirstPage = taggedIsFirstPage pg,
      augmentWithAdjacencyHints = taggedAugment pg,
      updateAdjacencyHints = taggedUpdateAdjacencyHints pg,
      loadCursors = taggedLoadCursors storageKey,
      saveCursors = taggedSaveCursors storageKey\<rparr>"

text \<open>
  \<open>initContext\<close>: \<open>Inl\<close> is the thrown error, \<open>Inr None\<close> the object whose
  \<open>shouldContinue\<close> is false.
\<close>

definition initContext :: "page \<Rightarrow> string + ctx option" where
  "initContext pg =
     (if whereDashboard pg then Inr (Some (dashboardContext pg))
      else if whereTagged pg then
        (case tagBase64 pg of
           None \<Rightarrow> Inl ''Failed to locate tag element''
         | Some b64 \<Rightarrow> Inr (Some (taggedContext (''cursors:tagged:'' @ b64) pg)))
      else Inr None)"

subsection \<open>Enumerating the posts\<close>

text \<open>
  What \<open>enumerateDashboardPostIds\<close> reads of each post element the selector matches:
  whether it holds a staff-picks recommendation link, and the number its \<open>data-id\<close>
  converts to (\<open>None\<close> when that is not an integer). \<open>prevPostId\<close> starts at
  \<open>Number.POSITIVE_INFINITY\<close>, which is \<open>None\<close> here.
\<close>

record postElem =
  staffPick :: bool
  dataId :: "int option"

fun enumerateLoop :: "int option \<Rightarrow> postElem list \<Rightarrow> string + int list" where
  "enumerateLoop prevPostId [] = Inr []"
| "enumerateLoop prevPostId (postElem # rest) =
     (if staffPick postElem then enumerateLoop prevPostId rest
      else case dataId postElem of
        None \<Rightarrow> Inl ''Failed to extract valid ID from post element''
      | Some postId \<Rightarrow>
          if \<not> isSafePositiveInteger postId
          then Inl ''Failed to extract valid ID from post element''
          else if (case prevPostId of None \<Rightarrow> False | Some p \<Rightarrow> postId \<ge> p)
          then Inl ''Encountered post that violates the expectation that posts must be ordered by strictly decreasing IDs''
          else (case enumerateLoop (Some postId) rest of
                  Inl e \<Rightarrow> Inl e
                | Inr postIds \<Rightarrow> Inr (postId # postIds)))"

definition enumerateDashboardPostIds :: "postElem list \<Rightarrow> string + int list" where
  "enumerateDashboardPostIds postElems = enumerateLoop None postElems"

subsection \<open>Reconciliation\<close>

datatype 'a outcome = Returned 'a | Threw string

definition RECONCILE_ABORT :: int where
  "RECONCILE_ABORT = 0"

definition RECONCILE_DEFER :: int where
  "RECONCILE_DEFER = - 1"

text \<open>
  \<open>saveCursors(cursors); return value;\<close> as it ends four paths of \<open>reconcile\<close>: an error
  thrown by \<open>saveCursors\<close> leaves the function with the store as it was.
\<close>

definition saveAndReturn ::
    "(cursors \<Rightarrow> storage \<Rightarrow> string + storage) \<Rightarrow> cursors \<Rightarrow> storage \<Rightarrow> int
       \<Rightarrow> int outcome \<times> cursors \<times> storage" where
  "saveAndReturn save c st v =
     (case save c st of
        Inl e \<Rightarrow> (Threw e, c, st)
      | Inr st1 \<Rightarrow> (Returned v, c, st1))"

text \<open>
  The loop that finds the best goal post: \<open>i\<close> runs from \<open>postIds.length - 2\<close> down to
  \<open>0\<close>, that is over the reversed array without its first element.
\<close>

fun bestGoalLoop :: "int \<Rightarrow> int \<Rightarrow> int list \<Rightarrow> int" where
  "bestGoalLoop goal bestGoalPostId [] = bestGoalPostId"
| "bestGoalLoop goal bestGoalPostId (postId # rest) =
     (if goal < postId then bestGoalPostId else bestGoalLoop goal postId rest)"

definition bestGoalPostIdOf :: "int \<Rightarrow> int list \<Rightarrow> int" where
  "bestGoalPostIdOf goal postIds = bestGoalLoop goal (last postIds) (tl (rev postIds))"

text \<open>
  The interval that \<open>reconcile\<close> merges into the witnessed intervals: the extremes of
  \<open>postIds\<close>, passed through \<open>augmentWithAdjacencyHints\<close> on the initial pass only.
\<close>

definition witnessedInterval ::
    "cursors \<Rightarrow> int list \<Rightarrow> bool \<Rightarrow> (cursors \<Rightarrow> interval \<Rightarrow> interval) \<Rightarrow> interval" where
  "witnessedInterval c postIds initial augment =
     (let oldestWitnessedPostId = last postIds; newestWitnessedPostId = hd postIds
      in if initial then augment c (oldestWitnessedPostId, newestWitnessedPostId)
         else (oldestWitnessedPostId, newestWitnessedPostId))"

text \<open>
  \<open>reconcile\<close> mutates \<open>cursors\<close> and, through \<open>saveCursors\<close>, the store. The model
  returns the outcome (the returned number or the thrown error) with the cursors object and
  the store as the call leaves them.
\<close>

definition reconcile ::
    "cursors \<Rightarrow> int list \<Rightarrow> bool \<Rightarrow> bool \<Rightarrow> (cursors \<Rightarrow> interval \<Rightarrow> interval)
       \<Rightarrow> (cursors \<Rightarrow> int list \<Rightarrow> cursors) \<Rightarrow> (cursors \<Rightarrow> storage \<Rightarrow> string + storage)
       \<Rightarrow> storage \<Rightarrow> int outcome \<times> cursors \<times> storage" where
  "reconcile c postIds initial firstPage augment update save st =
     (if length postIds = 0 then (Returned RECONCILE_ABORT, c, st)
      else if initial \<and> goalPostId c = None then
        (let newestWitnessedPostId = hd postIds
         in saveAndReturn save (c\<lparr>goalPostId := Some newestWitnessedPostId\<rparr>) st
              newestWitnessedPostId)
      else case goalPostId c of
        None \<Rightarrow> (Threw ''Invariants broken'', c, st)
      | Some goal \<Rightarrow>
          if \<not> isSafePositiveInteger goal then (Threw ''Invariants broken'', c, st)
          else
            let newestWitnessedPostId = hd postIds in
            if initial \<and> newestWitnessedPostId < goal then
              (if firstPage then
                 saveAndReturn save
                   (update (c\<lparr>goalPostId := Some newestWitnessedPostId,
                               witnessedPostIds := []\<rparr>) postIds)
                   st newestWitnessedPostId
               else (Returned RECONCILE_ABORT, c, st))
            else
              let (oldest1, newest1) = witnessedInterval c postIds initial augment in
              if newest1 \<le> oldest1 then (Threw ''Invariants broken'', c, st)
              else
                let (cursorsUpdated, witnessed1) =
                      addToSortedDisjointSafeIntegerIntervals (witnessedPostIds c)
                        (oldest1, newest1);
                    c1 = c\<lparr>witnessedPostIds := witnessed1\<rparr>;
                    index = indexOfIntervalContainingValue witnessed1 goal in
                if index = - 1 then
                  (if cursorsUpdated
                   then saveAndReturn save (update c1 postIds) st RECONCILE_DEFER
                   else (Returned RECONCILE_DEFER, c1, st))
                else if \<not> (cursorsUpdated \<and> index = 0) then (Threw ''Invariants broken'', c1, st)
                else
                  let bestGoalPostId = bestGoalPostIdOf goal postIds;
                      newGoalPostId = snd (hd witnessed1)
                  in saveAndReturn save
                       (update (c1\<lparr>goalPostId := Some newGoalPostId,
                                    witnessedPostIds := tl witnessed1\<rparr>) postIds)
                       st bestGoalPostId)"

section \<open>Properties of the interval helpers\<close>

subsection \<open>Sorted disjoint intervals\<close>

lemma areSortedFrom_weaken:
  "areSortedFrom (Some p) xs \<Longrightarrow> q \<le> p \<Longrightarrow> areSortedFrom (Some q) xs"
  by (cases xs) (auto split: if_splits)

lemma areSortedFrom_None:
  "areSortedFrom prev xs \<Longrightarrow> areSortedFrom None xs"
  by (cases xs) (auto split: if_splits)

lemma areSortedFrom_mem:
  "areSortedFrom prev xs \<Longrightarrow> (a, b) \<in> set xs \<Longrightarrow>
     (case prev of None \<Rightarrow> True | Some p \<Rightarrow> p < a) \<and> a < b \<and> isSafeInteger a \<and> isSafeInteger b"
proof (induction xs arbitrary: prev)
  case Nil
  then show ?case by simp
next
  case (Cons x xs)
  obtain lo hi where x: "x = (lo, hi)" by (cases x)
  from Cons.prems(1) x have hd: "isSafeInteger lo" "isSafeInteger hi" "lo < hi"
      "(case prev of None \<Rightarrow> True | Some p \<Rightarrow> p < lo)" and tl: "areSortedFrom (Some hi) xs"
    by (auto split: if_splits)
  show ?case
  proof (cases "(a, b) = x")
    case True
    with x hd show ?thesis by auto
  next
    case False
    with Cons.prems(2) have "(a, b) \<in> set xs" by simp
    from Cons.IH[OF tl this] hd show ?thesis by (auto split: option.splits)
  qed
qed

lemma addLoop_merge_phase:
  assumes "areSortedFrom (Some b) xs" "nl \<le> b" "b \<le> nh" "isSafeInteger nh"
  shows "\<exists>k p' nh'. addLoop start cnt p nl nh xs = (start, cnt + k, p', nl, nh')
           \<and> k \<le> length xs \<and> nh \<le> nh' \<and> isSafeInteger nh'
           \<and> areSortedFrom (Some nh') (drop k xs)
           \<and> (k = 0 \<longrightarrow> p' = p \<and> nh' = nh)
           \<and> (k = 0 \<longleftrightarrow> (xs = [] \<or> nh < fst (hd xs)))
           \<and> (\<forall>(a, b') \<in> set (take k xs). nl \<le> a \<and> b' \<le> nh')"
  using assms
proof (induction xs arbitrary: b cnt p nh)
  case Nil
  then show ?case by simp
next
  case (Cons x xs)
  obtain a b' where x: "x = (a, b')" by (cases x)
  from Cons.prems(1) x have hd: "isSafeInteger a" "isSafeInteger b'" "a < b'" "b < a"
    and tl: "areSortedFrom (Some b') xs"
    by (auto split: if_splits)
  show ?case
  proof (cases "nh < a")
    case True
    with x hd Cons.prems tl show ?thesis
      by (intro exI[of _ 0] exI[of _ p] exI[of _ nh]) auto
  next
    case False
    define nh1 where "nh1 = (if nh \<le> b' then b' else nh)"
    define p1 where "p1 = (if nh \<le> b' then p + 1 else p)"
    have step: "addLoop start cnt p nl nh (x # xs) = addLoop start (cnt + 1) p1 nl nh1 xs"
      using False hd Cons.prems(2,3) x by (auto simp: nh1_def p1_def)
    have pre: "nl \<le> b'" "b' \<le> nh1" "isSafeInteger nh1"
      using hd Cons.prems by (auto simp: nh1_def)
    from Cons.IH[OF tl pre, of "cnt + 1" p1]
    obtain k p' nh' where r: "addLoop start (cnt + 1) p1 nl nh1 xs = (start, cnt + 1 + k, p', nl, nh')"
      "k \<le> length xs" "nh1 \<le> nh'" "isSafeInteger nh'" "areSortedFrom (Some nh') (drop k xs)"
      "\<forall>(a, b') \<in> set (take k xs). nl \<le> a \<and> b' \<le> nh'"
      by blast
    have "nh \<le> nh1" "b' \<le> nh1" "nl \<le> a" using hd Cons.prems by (auto simp: nh1_def)
    with r step False x show ?thesis
      by (intro exI[of _ "Suc k"] exI[of _ p'] exI[of _ nh']) auto
  qed
qed

lemma addLoop_skip_phase:
  assumes "areSortedFrom prev xs" "lo < hi" "isSafeInteger lo" "isSafeInteger hi"
    "case prev of None \<Rightarrow> True | Some p \<Rightarrow> p < lo"
  shows "\<exists>j k p' nl' nh'. addLoop start 0 0 lo hi xs = (start + j, k, p', nl', nh')
           \<and> j + k \<le> length xs
           \<and> areSortedFrom prev (take j xs @ (nl', nh') # drop (j + k) xs)
           \<and> nl' \<le> lo \<and> hi \<le> nh'
           \<and> ((k = 1 \<and> p' = 2) \<longleftrightarrow> (\<exists>(a, b) \<in> set xs. a \<le> lo \<and> hi \<le> b))
           \<and> (\<forall>(a, b) \<in> set (take k (drop j xs)). nl' \<le> a \<and> b \<le> nh')"
  using assms
proof (induction xs arbitrary: prev start)
  case Nil
  then show ?case by (auto split: option.splits)
next
  case (Cons x xs)
  obtain a b where x: "x = (a, b)" by (cases x)
  from Cons.prems(1) x have hd: "isSafeInteger a" "isSafeInteger b" "a < b"
      "case prev of None \<Rightarrow> True | Some p \<Rightarrow> p < a"
    and tl: "areSortedFrom (Some b) xs"
    by (auto split: if_splits)
  have above: "\<And>a' b'. (a', b') \<in> set xs \<Longrightarrow> b < a'"
    using areSortedFrom_mem[OF tl] by auto
  consider (skip) "b < lo" | (brk) "\<not> b < lo" "hi < a" | (merge) "\<not> b < lo" "\<not> hi < a"
    by blast
  then show ?case
  proof cases
    case skip
    have "case Some b of None \<Rightarrow> True | Some p \<Rightarrow> p < lo" using skip by simp
    from Cons.IH[OF tl Cons.prems(2,3,4) this, of "start + 1"]
    obtain j k p' nl' nh' where r: "addLoop (start + 1) 0 0 lo hi xs = (start + 1 + j, k, p', nl', nh')"
      "j + k \<le> length xs" "areSortedFrom (Some b) (take j xs @ (nl', nh') # drop (j + k) xs)"
      "nl' \<le> lo" "hi \<le> nh'"
      "(k = 1 \<and> p' = 2) \<longleftrightarrow> (\<exists>(a, b) \<in> set xs. a \<le> lo \<and> hi \<le> b)"
      "\<forall>(a, b) \<in> set (take k (drop j xs)). nl' \<le> a \<and> b \<le> nh'"
      by blast
    have nocover: "\<not> (a \<le> lo \<and> hi \<le> b)" using skip Cons.prems(2) by simp
    show ?thesis
      apply (rule exI[of _ "Suc j"], rule exI[of _ k], rule exI[of _ p'], rule exI[of _ nl'], rule exI[of _ nh'])
      using r skip x hd nocover by auto
  next
    case brk
    have nocover: "\<not> (\<exists>(a', b') \<in> set (x # xs). a' \<le> lo \<and> hi \<le> b')"
      using brk x Cons.prems(2) above by fastforce
    show ?thesis
      apply (rule exI[of _ 0], rule exI[of _ 0], rule exI[of _ 0], rule exI[of _ lo], rule exI[of _ hi])
      using brk x hd Cons.prems nocover by (auto split: option.splits)
  next
    case merge
    define nl1 where "nl1 = (if a \<le> lo then a else lo)"
    define p1 where "p1 = (if a \<le> lo then 1 else 0::nat)"
    define nh1 where "nh1 = (if hi \<le> b then b else hi)"
    define p2 where "p2 = (if hi \<le> b then p1 + 1 else p1)"
    have step: "addLoop start 0 0 lo hi (x # xs) = addLoop start 1 p2 nl1 nh1 xs"
      using merge x by (auto simp: nl1_def p1_def nh1_def p2_def)
    have pre: "nl1 \<le> b" "b \<le> nh1" "isSafeInteger nh1"
      using merge hd Cons.prems by (auto simp: nl1_def nh1_def)
    from addLoop_merge_phase[OF tl pre, of start 1 p2]
    obtain k p' nh' where r: "addLoop start 1 p2 nl1 nh1 xs = (start, 1 + k, p', nl1, nh')"
      "k \<le> length xs" "nh1 \<le> nh'" "isSafeInteger nh'" "areSortedFrom (Some nh') (drop k xs)"
      "k = 0 \<longrightarrow> p' = p2 \<and> nh' = nh1" "k = 0 \<longleftrightarrow> (xs = [] \<or> nh1 < fst (hd xs))"
      "\<forall>(a, b') \<in> set (take k xs). nl1 \<le> a \<and> b' \<le> nh'"
      by blast
    have safe1: "isSafeInteger nl1" using hd Cons.prems by (simp add: nl1_def)
    have lt: "nl1 < nh'" using r(3) Cons.prems(2) hd by (auto simp: nl1_def nh1_def split: if_splits)
    have prev1: "case prev of None \<Rightarrow> True | Some p \<Rightarrow> p < nl1"
      using hd Cons.prems(5) by (auto simp: nl1_def split: option.splits)
    have sorted: "areSortedFrom prev ((nl1, nh') # drop k xs)"
      using safe1 lt prev1 r(4,5) by simp
    have bounds: "nl1 \<le> lo" "hi \<le> nh'" using r(3) by (auto simp: nl1_def nh1_def split: if_splits)
    have cover: "(1 + k = 1 \<and> p' = 2) \<longleftrightarrow> (\<exists>(a', b') \<in> set (x # xs). a' \<le> lo \<and> hi \<le> b')"
    proof
      assume "1 + k = 1 \<and> p' = 2"
      then have "k = 0" "p2 = 2" using r(6) by auto
      then have "a \<le> lo \<and> hi \<le> b" by (auto simp: p2_def p1_def split: if_splits)
      then show "\<exists>(a', b') \<in> set (x # xs). a' \<le> lo \<and> hi \<le> b'" using x by auto
    next
      assume "\<exists>(a', b') \<in> set (x # xs). a' \<le> lo \<and> hi \<le> b'"
      then obtain a' b' where m: "(a', b') \<in> set (x # xs)" "a' \<le> lo" "hi \<le> b'" by auto
      have "(a', b') = x"
      proof (rule ccontr)
        assume "(a', b') \<noteq> x"
        with m have "(a', b') \<in> set xs" by simp
        from above[OF this] merge m show False by simp
      qed
      with x m have c: "a \<le> lo" "hi \<le> b" by auto
      then have "nh1 = b" "p2 = 2" by (auto simp: nh1_def p2_def p1_def)
      moreover have "xs = [] \<or> b < fst (hd xs)"
        using above by (cases xs) force+
      ultimately have "k = 0" using r(7) by simp
      with r(6) \<open>p2 = 2\<close> show "1 + k = 1 \<and> p' = 2" by simp
    qed
    have within: "\<forall>(a', b') \<in> set (take (1 + k) (drop 0 (x # xs))). nl1 \<le> a' \<and> b' \<le> nh'"
      using r(3,8) x by (auto simp: nl1_def nh1_def split: if_splits)
    show ?thesis
      apply (rule exI[of _ 0], rule exI[of _ "1 + k"], rule exI[of _ p'], rule exI[of _ nl1], rule exI[of _ nh'])
      using step r(1,2) sorted bounds cover within by simp
  qed
qed

lemma areSortedFrom_nth:
  "areSortedFrom prev S \<longleftrightarrow>
     (case prev of None \<Rightarrow> True | Some p \<Rightarrow> S \<noteq> [] \<longrightarrow> p < fst (hd S))
     \<and> (\<forall>i<length S. isSafeInteger (fst (S ! i)) \<and> isSafeInteger (snd (S ! i))
            \<and> fst (S ! i) < snd (S ! i))
     \<and> (\<forall>i. Suc i < length S \<longrightarrow> snd (S ! i) < fst (S ! Suc i))"
proof (induction S arbitrary: prev)
  case Nil
  then show ?case by (simp split: option.splits)
next
  case (Cons x S)
  obtain a b where x: "x = (a, b)" by (cases x)
  have all: "(\<forall>i<length (x # S). P i) \<longleftrightarrow> P 0 \<and> (\<forall>i<length S. P (Suc i))" for P
    by (auto simp: less_Suc_eq_0_disj)
  have all2: "(\<forall>i. Suc i < length (x # S) \<longrightarrow> Q i)
      \<longleftrightarrow> (S \<noteq> [] \<longrightarrow> Q 0) \<and> (\<forall>i. Suc i < length S \<longrightarrow> Q (Suc i))" for Q
  proof (intro iffI conjI allI impI)
    fix i assume h: "(S \<noteq> [] \<longrightarrow> Q 0) \<and> (\<forall>i. Suc i < length S \<longrightarrow> Q (Suc i))"
      and i: "Suc i < length (x # S)"
    show "Q i"
    proof (cases i)
      case 0
      with h i show ?thesis by auto
    next
      case (Suc j)
      with h i show ?thesis by auto
    qed
  qed auto
  show ?case
    unfolding all all2
    using Cons.IH[of "Some b"] x
    by (cases S) (auto split: option.splits simp: hd_conv_nth)
qed

lemma indexLoop_found:
  "areSortedFrom prev xs \<Longrightarrow> i < length xs \<Longrightarrow> fst (xs ! i) \<le> v \<Longrightarrow> v \<le> snd (xs ! i)
     \<Longrightarrow> indexLoop n xs v = int (n + i)"
proof (induction xs arbitrary: prev n i)
  case Nil
  then show ?case by simp
next
  case (Cons x xs)
  obtain a b where x: "x = (a, b)" by (cases x)
  from Cons.prems(1) x have tl: "areSortedFrom (Some b) xs" and ab: "a < b"
    by (auto split: if_splits)
  show ?case
  proof (cases i)
    case 0
    with Cons.prems x show ?thesis by simp
  next
    case (Suc i')
    with Cons.prems have i': "i' < length xs" "fst (xs ! i') \<le> v" "v \<le> snd (xs ! i')" by auto
    have "(fst (xs ! i'), snd (xs ! i')) \<in> set xs" using i'(1) by simp
    from areSortedFrom_mem[OF tl this] have "b < fst (xs ! i')" by simp
    with i'(2) have "b < v" by simp
    with x Cons.IH[OF tl i', of "n + 1"] Suc show ?thesis by simp
  qed
qed

lemma indexLoop_not_found:
  "\<forall>(a, b) \<in> set xs. \<not> (a \<le> v \<and> v \<le> b) \<Longrightarrow> indexLoop n xs v = - 1"
  by (induction xs arbitrary: n) auto

lemma indexLoop_range:
  "indexLoop n xs v = - 1 \<or> (\<exists>i<length xs. indexLoop n xs v = int (n + i) \<and> fst (xs ! i) \<le> v \<and> v \<le> snd (xs ! i))"
proof (induction xs arbitrary: n)
  case Nil
  then show ?case by simp
next
  case (Cons x xs)
  obtain a b where x: "x = (a, b)" by (cases x)
  show ?case
  proof (cases "b < v")
    case True
    from Cons.IH[of "n + 1"] show ?thesis
    proof
      assume "indexLoop (n + 1) xs v = - 1"
      with True x show ?thesis by simp
    next
      assume "\<exists>i<length xs. indexLoop (n + 1) xs v = int (n + 1 + i) \<and> fst (xs ! i) \<le> v \<and> v \<le> snd (xs ! i)"
      then obtain i where "i < length xs" "indexLoop (n + 1) xs v = int (n + 1 + i)"
        "fst (xs ! i) \<le> v" "v \<le> snd (xs ! i)" by blast
      with True x have "Suc i < length (x # xs) \<and> indexLoop n (x # xs) v = int (n + Suc i)
         \<and> fst ((x # xs) ! Suc i) \<le> v \<and> v \<le> snd ((x # xs) ! Suc i)" by simp
      then show ?thesis by blast
    qed
  next
    case False
    show ?thesis
    proof (cases "v < a")
      case True
      with False x show ?thesis by simp
    next
      case nlt: False
      with False x have "0 < length (x # xs) \<and> indexLoop n (x # xs) v = int (n + 0)
         \<and> fst ((x # xs) ! 0) \<le> v \<and> v \<le> snd ((x # xs) ! 0)" by simp
      then show ?thesis by blast
    qed
  qed
qed

lemma add_shape:
  assumes "areSortedFrom prev W" "lo < hi" "isSafeInteger lo" "isSafeInteger hi"
    "case prev of None \<Rightarrow> True | Some p \<Rightarrow> p < lo"
  shows "\<exists>j k nl' nh'. j + k \<le> length W
           \<and> (fst (addToSortedDisjointSafeIntegerIntervals W (lo, hi)) \<longrightarrow>
                snd (addToSortedDisjointSafeIntegerIntervals W (lo, hi))
                  = take j W @ (nl', nh') # drop (j + k) W)
           \<and> areSortedFrom prev (take j W @ (nl', nh') # drop (j + k) W)
           \<and> nl' \<le> lo \<and> hi \<le> nh'
           \<and> (\<forall>(a, b) \<in> set (take k (drop j W)). nl' \<le> a \<and> b \<le> nh')"
proof -
  from addLoop_skip_phase[OF assms, of 0]
  obtain j k p' nl' nh' where r: "addLoop 0 0 0 lo hi W = (0 + j, k, p', nl', nh')"
    "j + k \<le> length W"
    "areSortedFrom prev (take j W @ (nl', nh') # drop (j + k) W)"
    "nl' \<le> lo" "hi \<le> nh'"
    "\<forall>(a, b) \<in> set (take k (drop j W)). nl' \<le> a \<and> b \<le> nh'"
    by blast
  have "fst (addToSortedDisjointSafeIntegerIntervals W (lo, hi)) \<longrightarrow>
          snd (addToSortedDisjointSafeIntegerIntervals W (lo, hi))
            = take j W @ (nl', nh') # drop (j + k) W"
    using r(1) by (simp add: addToSortedDisjointSafeIntegerIntervals_def arraySplice_def Let_def)
  with r(2-6) show ?thesis by blast
qed

lemma add_not_updated:
  "\<not> fst (addToSortedDisjointSafeIntegerIntervals W iv)
     \<Longrightarrow> snd (addToSortedDisjointSafeIntegerIntervals W iv) = W"
  by (auto simp: addToSortedDisjointSafeIntegerIntervals_def Let_def split: prod.splits)

lemma add_not_updated_iff:
  assumes "areSortedFrom prev W" "lo < hi" "isSafeInteger lo" "isSafeInteger hi"
    "case prev of None \<Rightarrow> True | Some p \<Rightarrow> p < lo"
  shows "\<not> fst (addToSortedDisjointSafeIntegerIntervals W (lo, hi))
           \<longleftrightarrow> (\<exists>(a, b) \<in> set W. a \<le> lo \<and> hi \<le> b)"
proof -
  from addLoop_skip_phase[OF assms, of 0]
  obtain j k p' nl' nh' where r: "addLoop 0 0 0 lo hi W = (0 + j, k, p', nl', nh')"
    "(k = 1 \<and> p' = 2) \<longleftrightarrow> (\<exists>(a, b) \<in> set W. a \<le> lo \<and> hi \<le> b)"
    by blast
  show ?thesis
    using r by (auto simp add: addToSortedDisjointSafeIntegerIntervals_def Let_def)
qed

lemma add_updated_changes:
  assumes s: "areSortedFrom prev W" and lt: "lo < hi" and sl: "isSafeInteger lo"
    and sh: "isSafeInteger hi" and p: "case prev of None \<Rightarrow> True | Some p \<Rightarrow> p < lo"
    and u: "fst (addToSortedDisjointSafeIntegerIntervals W (lo, hi))"
  shows "snd (addToSortedDisjointSafeIntegerIntervals W (lo, hi)) \<noteq> W"
proof
  assume same: "snd (addToSortedDisjointSafeIntegerIntervals W (lo, hi)) = W"
  from add_shape[OF s lt sl sh p] u obtain j k nl' nh' where
    r: "snd (addToSortedDisjointSafeIntegerIntervals W (lo, hi))
          = take j W @ (nl', nh') # drop (j + k) W" "nl' \<le> lo" "hi \<le> nh'"
    by blast
  from r(1) have "(nl', nh') \<in> set (snd (addToSortedDisjointSafeIntegerIntervals W (lo, hi)))"
    by simp
  with same have "(nl', nh') \<in> set W" by simp
  with r(2,3) have "\<exists>(a, b) \<in> set W. a \<le> lo \<and> hi \<le> b" by blast
  with add_not_updated_iff[OF s lt sl sh p] u show False by simp
qed

subsection \<open>Insertion and lookup\<close>

text \<open>
  Claim C5. For every interval set \<open>S\<close> that satisfies the validity predicate and every
  safe-integer interval \<open>[lo, hi]\<close> with \<open>lo < hi\<close>, the array that
  \<open>addToSortedDisjointSafeIntegerIntervals\<close> leaves behind satisfies the validity
  predicate again: every interval has its lower endpoint strictly below its upper endpoint,
  and the upper endpoint of each interval is strictly below the lower endpoint of the next.
\<close>

theorem add_preserves_validity:
  assumes "areSortedDisjointSafeIntegerIntervals S"
    and "isSafeInteger lo" and "isSafeInteger hi" and "lo < hi"
  shows "areSortedDisjointSafeIntegerIntervals
           (snd (addToSortedDisjointSafeIntegerIntervals S (lo, hi)))
       \<and> (\<forall>i<length (snd (addToSortedDisjointSafeIntegerIntervals S (lo, hi))).
             fst (snd (addToSortedDisjointSafeIntegerIntervals S (lo, hi)) ! i)
               < snd (snd (addToSortedDisjointSafeIntegerIntervals S (lo, hi)) ! i))
       \<and> (\<forall>i. Suc i < length (snd (addToSortedDisjointSafeIntegerIntervals S (lo, hi))) \<longrightarrow>
             snd (snd (addToSortedDisjointSafeIntegerIntervals S (lo, hi)) ! i)
               < fst (snd (addToSortedDisjointSafeIntegerIntervals S (lo, hi)) ! Suc i))"
proof -
  from assms(1) have s: "areSortedFrom None S"
    by (simp add: areSortedDisjointSafeIntegerIntervals_def)
  have "case None :: int option of None \<Rightarrow> True | Some p \<Rightarrow> p < lo" by simp
  from addLoop_skip_phase[OF s assms(4,2,3) this, of 0]
  obtain j k p' nl' nh' where r: "addLoop 0 0 0 lo hi S = (0 + j, k, p', nl', nh')"
    "areSortedFrom None (take j S @ (nl', nh') # drop (j + k) S)"
    by blast
  have v: "areSortedFrom None (snd (addToSortedDisjointSafeIntegerIntervals S (lo, hi)))"
    using r s by (simp add: addToSortedDisjointSafeIntegerIntervals_def arraySplice_def Let_def)
  from v[unfolded areSortedFrom_nth] v show ?thesis
    by (simp add: areSortedDisjointSafeIntegerIntervals_def)
qed

theorem add_preserves_validity_witness:
  "areSortedDisjointSafeIntegerIntervals [(1, 3), (5, 7)]
     \<and> isSafeInteger 2 \<and> isSafeInteger 6 \<and> (2::int) < 6
     \<and> snd (addToSortedDisjointSafeIntegerIntervals [(1, 3), (5, 7)] (2, 6)) = [(1, 7)]
     \<and> areSortedDisjointSafeIntegerIntervals
          (snd (addToSortedDisjointSafeIntegerIntervals [(1, 3), (5, 7)] (2, 6)))"
proof -
  have h1: "areSortedDisjointSafeIntegerIntervals [(1, 3), (5, 7)]"
    by (simp add: areSortedDisjointSafeIntegerIntervals_def isSafeInteger_def
        MAX_SAFE_INTEGER_def)
  have h2: "isSafeInteger 2" and h3: "isSafeInteger 6"
    by (simp_all add: isSafeInteger_def MAX_SAFE_INTEGER_def)
  have h4: "(2::int) < 6" by simp
  have r: "snd (addToSortedDisjointSafeIntegerIntervals [(1, 3), (5, 7)] (2, 6)) = [(1, 7)]"
    by (simp add: addToSortedDisjointSafeIntegerIntervals_def arraySplice_def)
  from add_preserves_validity[OF h1 h2 h3 h4] h1 h2 h3 h4 r show ?thesis by simp
qed

text \<open>
  Claim C6. For every valid interval set \<open>S\<close> and interval \<open>[lo, hi]\<close> with
  \<open>lo < hi\<close>, \<open>addToSortedDisjointSafeIntegerIntervals\<close> returns \<open>false\<close> exactly when
  one interval of \<open>S\<close> already covers \<open>[lo, hi]\<close>, and then leaves \<open>S\<close> as it was; in
  every other case it returns \<open>true\<close>, and \<open>S\<close> has changed.
\<close>

theorem add_reports_change:
  assumes "areSortedDisjointSafeIntegerIntervals S"
    and "isSafeInteger lo" and "isSafeInteger hi" and "lo < hi"
  shows "(\<not> fst (addToSortedDisjointSafeIntegerIntervals S (lo, hi))
            \<longleftrightarrow> (\<exists>(a, b) \<in> set S. a \<le> lo \<and> hi \<le> b))
       \<and> (\<not> fst (addToSortedDisjointSafeIntegerIntervals S (lo, hi))
            \<longrightarrow> snd (addToSortedDisjointSafeIntegerIntervals S (lo, hi)) = S)
       \<and> (fst (addToSortedDisjointSafeIntegerIntervals S (lo, hi))
            \<longrightarrow> snd (addToSortedDisjointSafeIntegerIntervals S (lo, hi)) \<noteq> S)"
proof -
  from assms(1) have s: "areSortedFrom None S"
    by (simp add: areSortedDisjointSafeIntegerIntervals_def)
  have p: "case None :: int option of None \<Rightarrow> True | Some p \<Rightarrow> p < lo" by simp
  note iff = add_not_updated_iff[OF s assms(4,2,3) p]
  note same = add_not_updated[of S "(lo, hi)"]
  note changed = add_updated_changes[OF s assms(4,2,3) p]
  from iff same changed show ?thesis by blast
qed

theorem add_reports_change_witness:
  "areSortedDisjointSafeIntegerIntervals [(1, 10), (20, 30)]
     \<and> isSafeInteger 2 \<and> isSafeInteger 6 \<and> (2::int) < 6
     \<and> (\<exists>(a, b) \<in> set [(1, 10), (20, 30)]. a \<le> (2::int) \<and> (6::int) \<le> b)
     \<and> \<not> fst (addToSortedDisjointSafeIntegerIntervals [(1, 10), (20, 30)] (2, 6))
     \<and> snd (addToSortedDisjointSafeIntegerIntervals [(1, 10), (20, 30)] (2, 6))
         = [(1, 10), (20, 30)]
     \<and> fst (addToSortedDisjointSafeIntegerIntervals [(1, 10), (20, 30)] (8, 25))
     \<and> snd (addToSortedDisjointSafeIntegerIntervals [(1, 10), (20, 30)] (8, 25))
         \<noteq> [(1, 10), (20, 30)]"
proof -
  have h1: "areSortedDisjointSafeIntegerIntervals [(1, 10), (20, 30)]"
    by (simp add: areSortedDisjointSafeIntegerIntervals_def isSafeInteger_def
        MAX_SAFE_INTEGER_def)
  have h2: "isSafeInteger 2" and h3: "isSafeInteger 6"
    by (simp_all add: isSafeInteger_def MAX_SAFE_INTEGER_def)
  have h4: "(2::int) < 6" by simp
  have c: "\<exists>(a, b) \<in> set [(1, 10), (20, 30)]. a \<le> (2::int) \<and> (6::int) \<le> b" by simp
  have h5: "isSafeInteger 8" and h6: "isSafeInteger 25"
    by (simp_all add: isSafeInteger_def MAX_SAFE_INTEGER_def)
  have h7: "(8::int) < 25" by simp
  have u: "fst (addToSortedDisjointSafeIntegerIntervals [(1, 10), (20, 30)] (8, 25))"
    by (simp add: addToSortedDisjointSafeIntegerIntervals_def)
  from add_reports_change[OF h1 h5 h6 h7] u
  have n: "snd (addToSortedDisjointSafeIntegerIntervals [(1, 10), (20, 30)] (8, 25))
         \<noteq> [(1, 10), (20, 30)]" by blast
  from add_reports_change[OF h1 h2 h3 h4] c h1 h2 h3 h4 u n show ?thesis by blast
qed

text \<open>
  Claim C8. For every valid interval set \<open>S\<close> and safe integer \<open>v\<close>,
  \<open>indexOfIntervalContainingValue\<close> returns the index of the interval whose closed range
  contains \<open>v\<close> when there is one (so that interval is unique), and \<open>-1\<close> when no
  interval of \<open>S\<close> contains \<open>v\<close>.
\<close>

theorem index_of_containing_interval:
  assumes "areSortedDisjointSafeIntegerIntervals S" and "isSafeInteger v"
  shows "(\<forall>i<length S. fst (S ! i) \<le> v \<and> v \<le> snd (S ! i)
            \<longrightarrow> indexOfIntervalContainingValue S v = int i)
       \<and> ((\<forall>i<length S. \<not> (fst (S ! i) \<le> v \<and> v \<le> snd (S ! i)))
            \<longrightarrow> indexOfIntervalContainingValue S v = - 1)"
proof (intro conjI allI impI)
  fix i assume "i < length S" "fst (S ! i) \<le> v \<and> v \<le> snd (S ! i)"
  with assms(1) indexLoop_found[of None S i v 0]
  show "indexOfIntervalContainingValue S v = int i"
    by (simp add: indexOfIntervalContainingValue_def areSortedDisjointSafeIntegerIntervals_def)
next
  assume a: "\<forall>i<length S. \<not> (fst (S ! i) \<le> v \<and> v \<le> snd (S ! i))"
  have "\<forall>(a, b) \<in> set S. \<not> (a \<le> v \<and> v \<le> b)"
  proof (clarify)
    fix a b assume "(a, b) \<in> set S" "a \<le> v" "v \<le> b"
    then obtain i where "i < length S" "S ! i = (a, b)" by (auto simp: in_set_conv_nth)
    with a \<open>a \<le> v\<close> \<open>v \<le> b\<close> show False by auto
  qed
  then show "indexOfIntervalContainingValue S v = - 1"
    by (simp add: indexOfIntervalContainingValue_def indexLoop_not_found)
qed

theorem index_of_containing_interval_witness:
  "areSortedDisjointSafeIntegerIntervals [(1, 3), (5, 7)] \<and> isSafeInteger 6 \<and> isSafeInteger 4
     \<and> indexOfIntervalContainingValue [(1, 3), (5, 7)] 6 = 1
     \<and> indexOfIntervalContainingValue [(1, 3), (5, 7)] 4 = - 1"
proof -
  have h1: "areSortedDisjointSafeIntegerIntervals [(1, 3), (5, 7)]"
    by (simp add: areSortedDisjointSafeIntegerIntervals_def isSafeInteger_def
        MAX_SAFE_INTEGER_def)
  have h2: "isSafeInteger 6" and h3: "isSafeInteger 4"
    by (simp_all add: isSafeInteger_def MAX_SAFE_INTEGER_def)
  have i1: "(1::nat) < length [(1::int, 3::int), (5, 7)]" by simp
  have c1: "fst ([(1::int, 3::int), (5, 7)] ! 1) \<le> 6 \<and> 6 \<le> snd ([(1::int, 3::int), (5, 7)] ! 1)"
    by simp
  have c2: "\<forall>i<length [(1::int, 3::int), (5, 7)].
      \<not> (fst ([(1::int, 3::int), (5, 7)] ! i) \<le> 4 \<and> 4 \<le> snd ([(1::int, 3::int), (5, 7)] ! i))"
    by (simp add: less_Suc_eq nth_Cons')
  from index_of_containing_interval[OF h1 h2] i1 c1
  have "indexOfIntervalContainingValue [(1, 3), (5, 7)] 6 = int 1" by blast
  moreover from index_of_containing_interval[OF h1 h3] c2
  have "indexOfIntervalContainingValue [(1, 3), (5, 7)] 4 = - 1" by blast
  ultimately show ?thesis using h1 h2 h3 by simp
qed

section \<open>Properties of reconciliation\<close>

subsection \<open>What a call of reconcile persists\<close>

lemma saveAndReturn_store:
  "saveAndReturn save c st v = (out, c', st') \<Longrightarrow>
     c' = c \<and> ((st' = st \<and> (\<exists>e. out = Threw e \<and> save c st = Inl e))
              \<or> (save c st = Inr st' \<and> out = Returned v))"
  by (auto simp: saveAndReturn_def split: sum.splits)

lemma reconcile_store:
  assumes "reconcile c postIds initial firstPage augment update save st = (out, c', st')"
  shows "st' = st \<or> (save c' st = Inr st' \<and> (\<exists>v. out = Returned v))"
proof -
  obtain o1 n1 where w: "witnessedInterval c postIds initial augment = (o1, n1)"
    by (cases "witnessedInterval c postIds initial augment")
  obtain u W1 where a: "addToSortedDisjointSafeIntegerIntervals (witnessedPostIds c) (o1, n1) = (u, W1)"
    by (cases "addToSortedDisjointSafeIntegerIntervals (witnessedPostIds c) (o1, n1)")
  show ?thesis
    using assms w a
    by (auto simp: reconcile_def Let_def split: if_splits option.splits dest!: saveAndReturn_store)
qed

lemma reconcile_throw_cause:
  assumes "reconcile c postIds initial firstPage augment update save st = (Threw e, c', st')"
  shows "e = ''Invariants broken'' \<or> save c' st = Inl e"
proof -
  obtain o1 n1 where w: "witnessedInterval c postIds initial augment = (o1, n1)"
    by (cases "witnessedInterval c postIds initial augment")
  obtain u W1 where a: "addToSortedDisjointSafeIntegerIntervals (witnessedPostIds c) (o1, n1) = (u, W1)"
    by (cases "addToSortedDisjointSafeIntegerIntervals (witnessedPostIds c) (o1, n1)")
  show ?thesis
    using assms w a
    by (auto simp: reconcile_def Let_def split: if_splits option.splits dest!: saveAndReturn_store)
qed

lemma validCursors_above:
  "validCursors c \<Longrightarrow> goalPostId c = Some g \<Longrightarrow>
     isSafePositiveInteger g \<and> areSortedFrom (Some g) (witnessedPostIds c)"
  by (auto simp: validCursors_def areSortedDisjointSafeIntegerIntervals_def split: if_splits)

lemma validCursors_intro:
  "isSafePositiveInteger g \<Longrightarrow> areSortedFrom (Some g) W \<Longrightarrow>
     validCursors \<lparr>goalPostId = Some g, witnessedPostIds = W, adjacencyHints = h\<rparr>"
  by (auto simp: validCursors_def areSortedDisjointSafeIntegerIntervals_def isSafeInteger_def
      isSafePositiveInteger_def MAX_SAFE_INTEGER_def)

lemma index_above:
  "areSortedFrom (Some g) W \<Longrightarrow> indexOfIntervalContainingValue W g = - 1"
proof -
  assume s: "areSortedFrom (Some g) W"
  have "\<forall>(a, b) \<in> set W. \<not> (a \<le> g \<and> g \<le> b)"
    using areSortedFrom_mem[OF s] by fastforce
  then show ?thesis by (simp add: indexOfIntervalContainingValue_def indexLoop_not_found)
qed

lemma add_above:
  assumes "areSortedFrom (Some g) W" "g < lo" "lo < hi" "isSafeInteger lo" "isSafeInteger hi"
  shows "areSortedFrom (Some g) (snd (addToSortedDisjointSafeIntegerIntervals W (lo, hi)))"
proof -
  have "case Some g of None \<Rightarrow> True | Some p \<Rightarrow> p < lo" using assms(2) by simp
  from addLoop_skip_phase[OF assms(1,3,4,5) this, of 0]
  obtain j k p' nl' nh' where r: "addLoop 0 0 0 lo hi W = (0 + j, k, p', nl', nh')"
    "areSortedFrom (Some g) (take j W @ (nl', nh') # drop (j + k) W)"
    by blast
  show ?thesis
    using r assms(1) by (simp add: addToSortedDisjointSafeIntegerIntervals_def arraySplice_def Let_def)
qed

lemmas separator_eval =
  reconcile_def saveAndReturn_def witnessedInterval_def augmentIdentity_def
  addToSortedDisjointSafeIntegerIntervals_def arraySplice_def indexOfIntervalContainingValue_def
  bestGoalPostIdOf_def isSafePositiveInteger_def isSafeInteger_def MAX_SAFE_INTEGER_def
  RECONCILE_DEFER_def RECONCILE_ABORT_def validCursors_def validTaggedCursors_def
  areSortedDisjointSafeIntegerIntervals_def storageSet_def storageGet_def
  dashboardSaveCursors_def dashboardLoadCursors_def taggedSaveCursors_def taggedLoadCursors_def
  taggedUpdateAdjacencyHints_def newMap_def Let_def

text \<open>
  Claim C9. Whenever a call of \<open>reconcile\<close> throws (the goal post is not a safe positive
  integer where one is required, the witnessed interval is degenerate, the goal post is
  contained without a change of the set or outside the first interval, or \<open>saveCursors\<close>
  rejects the cursors), nothing was persisted during the call: the store after the throw is the
  store at entry.
\<close>

theorem reconcile_throw_keeps_store:
  assumes "reconcile c postIds initial firstPage augment update save st = (Threw e, c', st')"
  shows "st' = st \<and> (e = ''Invariants broken'' \<or> save c' st = Inl e)"
  using reconcile_store[OF assms] reconcile_throw_cause[OF assms] by auto

theorem reconcile_throw_keeps_store_witness:
  "fst (reconcile \<lparr>goalPostId = Some 100, witnessedPostIds = [], adjacencyHints = []\<rparr> [105]
          True False augmentIdentity (\<lambda>c postIds. c) dashboardSaveCursors
          [(''cursors:dashboard'', Stored2 (Some 100) [])]) = Threw ''Invariants broken''
   \<and> snd (snd (reconcile \<lparr>goalPostId = Some 100, witnessedPostIds = [], adjacencyHints = []\<rparr> [105]
          True False augmentIdentity (\<lambda>c postIds. c) dashboardSaveCursors
          [(''cursors:dashboard'', Stored2 (Some 100) [])]))
       = [(''cursors:dashboard'', Stored2 (Some 100) [])]"
proof -
  let ?r = "reconcile \<lparr>goalPostId = Some 100, witnessedPostIds = [], adjacencyHints = []\<rparr> [105]
          True False augmentIdentity (\<lambda>c postIds. c) dashboardSaveCursors
          [(''cursors:dashboard'', Stored2 (Some 100) [])]"
  have f: "fst ?r = Threw ''Invariants broken''"
    by (simp add: separator_eval)
  then have "?r = (Threw ''Invariants broken'', fst (snd ?r), snd (snd ?r))"
    by (metis prod.collapse)
  from reconcile_throw_keeps_store[OF this] f show ?thesis by simp
qed

text \<open>
  Claim C3 states that \<open>goalPostId\<close> is \<open>null\<close> if and only if \<open>witnessedPostIds\<close> is
  empty, for every valid cursors object and every one that \<open>reconcile\<close> persists. The
  direction from empty to \<open>null\<close> fails: a positive goal post with no witnessed interval is
  valid, and it is what \<open>reconcile\<close> persists on the first visit of a context.
\<close>

theorem cursor_null_iff_empty_counterexample:
  "validCursors \<lparr>goalPostId = Some 100, witnessedPostIds = [], adjacencyHints = []\<rparr>
   \<and> \<not> (goalPostId \<lparr>goalPostId = Some 100, witnessedPostIds = [], adjacencyHints = []\<rparr> = None
         \<longleftrightarrow> witnessedPostIds \<lparr>goalPostId = Some 100, witnessedPostIds = [], adjacencyHints = []\<rparr> = [])
   \<and> reconcile \<lparr>goalPostId = None, witnessedPostIds = [], adjacencyHints = []\<rparr> [50, 49, 48]
        True True augmentIdentity (\<lambda>c postIds. c) dashboardSaveCursors []
      = (Returned 50, \<lparr>goalPostId = Some 50, witnessedPostIds = [], adjacencyHints = []\<rparr>,
         [(''cursors:dashboard'', Stored2 (Some 50) [])])"
  by (simp add: separator_eval)

text \<open>
  Claim C3, amended. In every cursors object accepted by \<open>validCursors\<close>, a \<open>null\<close>
  goal post implies that \<open>witnessedPostIds\<close> is empty; and whatever a call of
  \<open>reconcile\<close> persists, through the dashboard's or a tagged view's \<open>saveCursors\<close>, is the
  cursors object the call leaves behind, and it is valid.
\<close>

theorem cursor_null_implies_empty:
  "(validCursors c \<longrightarrow> goalPostId c = None \<longrightarrow> witnessedPostIds c = [])
   \<and> (reconcile c0 postIds initial firstPage augment update dashboardSaveCursors st = (out, c', st')
        \<longrightarrow> st' \<noteq> st
        \<longrightarrow> st' = (''cursors:dashboard'', Stored2 (goalPostId c') (witnessedPostIds c')) # st
            \<and> validCursors c')
   \<and> (reconcile c0 postIds initial firstPage augment update (taggedSaveCursors key) st = (out, c', st')
        \<longrightarrow> st' \<noteq> st
        \<longrightarrow> st' = (key, Stored3 (goalPostId c') (witnessedPostIds c') (adjacencyHints c')) # st
            \<and> validTaggedCursors c' \<and> validCursors c')"
proof -
  have a: "validCursors c \<longrightarrow> goalPostId c = None \<longrightarrow> witnessedPostIds c = []"
    by (auto simp: validCursors_def)
  have b: "st' = (''cursors:dashboard'', Stored2 (goalPostId c') (witnessedPostIds c')) # st
            \<and> validCursors c'"
    if r: "reconcile c0 postIds initial firstPage augment update dashboardSaveCursors st = (out, c', st')"
      and n: "st' \<noteq> st"
  proof -
    from reconcile_store[OF r] n have "dashboardSaveCursors c' st = Inr st'" by auto
    then show ?thesis
      by (auto simp: dashboardSaveCursors_def storageSet_def split: if_splits)
  qed
  have t: "st' = (key, Stored3 (goalPostId c') (witnessedPostIds c') (adjacencyHints c')) # st
            \<and> validTaggedCursors c' \<and> validCursors c'"
    if r: "reconcile c0 postIds initial firstPage augment update (taggedSaveCursors key) st = (out, c', st')"
      and n: "st' \<noteq> st"
  proof -
    from reconcile_store[OF r] n have "taggedSaveCursors key c' st = Inr st'" by auto
    then show ?thesis
      by (auto simp: taggedSaveCursors_def storageSet_def validTaggedCursors_def split: if_splits)
  qed
  from a b t show ?thesis by blast
qed

theorem cursor_null_implies_empty_witness:
  "validCursors \<lparr>goalPostId = None, witnessedPostIds = [], adjacencyHints = []\<rparr>
   \<and> witnessedPostIds \<lparr>goalPostId = None, witnessedPostIds = [], adjacencyHints = []\<rparr> = []
   \<and> reconcile \<lparr>goalPostId = None, witnessedPostIds = [], adjacencyHints = []\<rparr> [50, 49, 48]
        True True augmentIdentity (\<lambda>c postIds. c) dashboardSaveCursors []
      = (Returned 50, \<lparr>goalPostId = Some 50, witnessedPostIds = [], adjacencyHints = []\<rparr>,
         [(''cursors:dashboard'', Stored2 (Some 50) [])])
   \<and> reconcile \<lparr>goalPostId = None, witnessedPostIds = [], adjacencyHints = []\<rparr> [50, 49, 48]
        True True augmentIdentity (\<lambda>c postIds. c) (taggedSaveCursors ''cursors:tagged:Zm9v'') []
      = (Returned 50, \<lparr>goalPostId = Some 50, witnessedPostIds = [], adjacencyHints = []\<rparr>,
         [(''cursors:tagged:Zm9v'', Stored3 (Some 50) [] [])])
   \<and> validCursors \<lparr>goalPostId = Some 50, witnessedPostIds = [], adjacencyHints = []\<rparr>
   \<and> validTaggedCursors \<lparr>goalPostId = Some 50, witnessedPostIds = [], adjacencyHints = []\<rparr>"
proof -
  let ?c = "\<lparr>goalPostId = None, witnessedPostIds = [], adjacencyHints = []\<rparr>"
  let ?c' = "\<lparr>goalPostId = Some 50, witnessedPostIds = [], adjacencyHints = []\<rparr>"
  let ?sd = "[(''cursors:dashboard'', Stored2 (Some 50) [])]"
  let ?st = "[(''cursors:tagged:Zm9v'', Stored3 (Some 50) [] [])]"
  have v: "validCursors ?c" by (simp add: validCursors_def)
  have g: "goalPostId ?c = None" by simp
  have rd: "reconcile ?c [50, 49, 48] True True augmentIdentity (\<lambda>c postIds. c)
      dashboardSaveCursors [] = (Returned 50, ?c', ?sd)"
    by (simp add: separator_eval)
  have rt: "reconcile ?c [50, 49, 48] True True augmentIdentity (\<lambda>c postIds. c)
      (taggedSaveCursors ''cursors:tagged:Zm9v'') [] = (Returned 50, ?c', ?st)"
    by (simp add: separator_eval)
  have nd: "?sd \<noteq> []" and nt: "?st \<noteq> []" by simp_all
  from cursor_null_implies_empty[where c = ?c and ?c0.0 = ?c and postIds = "[50, 49, 48]"
      and initial = True and firstPage = True and augment = augmentIdentity
      and update = "\<lambda>c postIds. c" and st = "[]" and out = "Returned 50" and c' = ?c'
      and st' = ?sd and key = "''cursors:tagged:Zm9v''"] v g rd nd
  have 1: "witnessedPostIds ?c = []" "validCursors ?c'" by blast+
  from cursor_null_implies_empty[where c = ?c and ?c0.0 = ?c and postIds = "[50, 49, 48]"
      and initial = True and firstPage = True and augment = augmentIdentity
      and update = "\<lambda>c postIds. c" and st = "[]" and out = "Returned 50" and c' = ?c'
      and st' = ?st and key = "''cursors:tagged:Zm9v''"] rt nt
  have 2: "validTaggedCursors ?c'" by blast
  from v 1 2 rd rt show ?thesis by blast
qed

text \<open>
  Claim C10. In every cursors object accepted by \<open>validCursors\<close> with a goal post that is
  not \<open>null\<close>, every witnessed interval lies strictly above the goal post. The cursors
  that \<open>loadCursors\<close> returns and the cursors that \<open>saveCursors\<close> writes have passed the
  check, in both contexts (\<open>validTaggedCursors\<close> includes \<open>validCursors\<close>).
\<close>

theorem witnessed_above_goal_post:
  "(validCursors c \<longrightarrow> goalPostId c = Some g
      \<longrightarrow> (\<forall>(lo, hi) \<in> set (witnessedPostIds c). g < lo \<and> lo < hi))
   \<and> (validTaggedCursors c \<longrightarrow> validCursors c)
   \<and> (dashboardLoadCursors st = Inr c \<longrightarrow> validCursors c)
   \<and> (taggedLoadCursors key st = Inr c \<longrightarrow> validTaggedCursors c)
   \<and> (dashboardSaveCursors c st = Inr st' \<longrightarrow> validCursors c)
   \<and> (taggedSaveCursors key c st = Inr st' \<longrightarrow> validTaggedCursors c)"
proof (intro conjI impI)
  assume v: "validCursors c" and g: "goalPostId c = Some g"
  from validCursors_above[OF v g] have s: "areSortedFrom (Some g) (witnessedPostIds c)" by simp
  show "\<forall>(lo, hi) \<in> set (witnessedPostIds c). g < lo \<and> lo < hi"
    using areSortedFrom_mem[OF s] by fastforce
next
  assume "validTaggedCursors c"
  then show "validCursors c" by (simp add: validTaggedCursors_def split: if_splits)
next
  assume "dashboardLoadCursors st = Inr c"
  then show "validCursors c"
    by (auto simp: dashboardLoadCursors_def Let_def split: if_splits)
next
  assume "taggedLoadCursors key st = Inr c"
  then show "validTaggedCursors c"
    by (auto simp: taggedLoadCursors_def Let_def split: if_splits)
next
  assume "dashboardSaveCursors c st = Inr st'"
  then show "validCursors c" by (auto simp: dashboardSaveCursors_def split: if_splits)
next
  assume "taggedSaveCursors key c st = Inr st'"
  then show "validTaggedCursors c" by (auto simp: taggedSaveCursors_def split: if_splits)
qed

theorem witnessed_above_goal_post_witness:
  "validCursors \<lparr>goalPostId = Some 100, witnessedPostIds = [(103, 105)], adjacencyHints = []\<rparr>
   \<and> validTaggedCursors \<lparr>goalPostId = Some 100, witnessedPostIds = [(103, 105)], adjacencyHints = []\<rparr>
   \<and> dashboardLoadCursors [(''cursors:dashboard'', Stored2 (Some 100) [(103, 105)])]
       = Inr \<lparr>goalPostId = Some 100, witnessedPostIds = [(103, 105)], adjacencyHints = []\<rparr>
   \<and> taggedLoadCursors ''cursors:tagged:Zm9v'' [(''cursors:tagged:Zm9v'', Stored3 (Some 100) [(103, 105)] [])]
       = Inr \<lparr>goalPostId = Some 100, witnessedPostIds = [(103, 105)], adjacencyHints = []\<rparr>
   \<and> dashboardSaveCursors \<lparr>goalPostId = Some 100, witnessedPostIds = [(103, 105)], adjacencyHints = []\<rparr> []
       = Inr [(''cursors:dashboard'', Stored2 (Some 100) [(103, 105)])]
   \<and> taggedSaveCursors ''cursors:tagged:Zm9v''
         \<lparr>goalPostId = Some 100, witnessedPostIds = [(103, 105)], adjacencyHints = []\<rparr> []
       = Inr [(''cursors:tagged:Zm9v'', Stored3 (Some 100) [(103, 105)] [])]
   \<and> (100::int) < 103"
proof -
  let ?c = "\<lparr>goalPostId = Some 100, witnessedPostIds = [(103, 105)], adjacencyHints = []\<rparr>"
  let ?sd = "[(''cursors:dashboard'', Stored2 (Some 100) [(103, 105)])]"
  let ?st = "[(''cursors:tagged:Zm9v'', Stored3 (Some 100) [(103, 105)] [])]"
  have ld: "dashboardLoadCursors ?sd = Inr ?c" by (simp add: separator_eval)
  have lt: "taggedLoadCursors ''cursors:tagged:Zm9v'' ?st = Inr ?c" by (simp add: separator_eval)
  have sd: "dashboardSaveCursors ?c [] = Inr ?sd" by (simp add: separator_eval)
  have st: "taggedSaveCursors ''cursors:tagged:Zm9v'' ?c [] = Inr ?st" by (simp add: separator_eval)
  have g: "goalPostId ?c = Some 100" by simp
  note t = witnessed_above_goal_post[where c = ?c and g = 100 and key = "''cursors:tagged:Zm9v''"]
  from t[where st = ?sd] ld have v: "validCursors ?c" by blast
  from t[where st = ?st] lt have vt: "validTaggedCursors ?c" by blast
  from t[where st = "[]" and st' = ?sd] sd have v2: "validCursors ?c" by blast
  from t[where st = "[]" and st' = ?st] st have vt2: "validTaggedCursors ?c" by blast
  from t[where st = "[]"] vt have v3: "validCursors ?c" by blast
  from t[where st = "[]"] v g have "\<forall>(lo, hi) \<in> set (witnessedPostIds ?c). 100 < lo \<and> lo < hi" by blast
  then have "(100::int) < 103" by simp
  with v vt ld lt sd st show ?thesis by blast
qed

subsection \<open>Coverage of the witnessed intervals\<close>

lemma add_covers:
  assumes s: "areSortedFrom prev W" and lt: "lo < hi" and sl: "isSafeInteger lo"
    and sh: "isSafeInteger hi" and p: "case prev of None \<Rightarrow> True | Some p \<Rightarrow> p < lo"
    and v: "(\<exists>(a, b) \<in> set W. a \<le> v \<and> v \<le> b) \<or> (lo \<le> v \<and> v \<le> hi)"
  shows "\<exists>(a, b) \<in> set (snd (addToSortedDisjointSafeIntegerIntervals W (lo, hi))). a \<le> v \<and> v \<le> b"
proof (cases "fst (addToSortedDisjointSafeIntegerIntervals W (lo, hi))")
  case False
  then have same: "snd (addToSortedDisjointSafeIntegerIntervals W (lo, hi)) = W"
    by (rule add_not_updated)
  from add_not_updated_iff[OF s lt sl sh p] False
  obtain a b where c: "(a, b) \<in> set W" "a \<le> lo" "hi \<le> b" by auto
  from v show ?thesis
  proof
    assume "\<exists>(a, b) \<in> set W. a \<le> v \<and> v \<le> b"
    with same show ?thesis by simp
  next
    assume "lo \<le> v \<and> v \<le> hi"
    with c have "(a, b) \<in> set W \<and> a \<le> v \<and> v \<le> b" by simp
    with same show ?thesis by auto
  qed
next
  case True
  from add_shape[OF s lt sl sh p] True
  obtain j k nl' nh' where r: "j + k \<le> length W"
    "snd (addToSortedDisjointSafeIntegerIntervals W (lo, hi)) = take j W @ (nl', nh') # drop (j + k) W"
    "nl' \<le> lo" "hi \<le> nh'"
    "\<forall>(a, b) \<in> set (take k (drop j W)). nl' \<le> a \<and> b \<le> nh'"
    by blast
  have split: "W = take j W @ take k (drop j W) @ drop (j + k) W"
    by (metis add.commute append_take_drop_id drop_drop)
  from v show ?thesis
  proof
    assume "lo \<le> v \<and> v \<le> hi"
    with r(2,3,4) show ?thesis by auto
  next
    assume "\<exists>(a, b) \<in> set W. a \<le> v \<and> v \<le> b"
    then obtain a b where m: "(a, b) \<in> set W" "a \<le> v" "v \<le> b" by auto
    from m(1) split have "(a, b) \<in> set (take j W) \<or> (a, b) \<in> set (take k (drop j W))
        \<or> (a, b) \<in> set (drop (j + k) W)"
      by (metis Un_iff set_append)
    then show ?thesis
    proof (elim disjE)
      assume "(a, b) \<in> set (take j W)"
      with r(2) m show ?thesis by auto
    next
      assume "(a, b) \<in> set (take k (drop j W))"
      with r(5) have "nl' \<le> a \<and> b \<le> nh'" by auto
      with r(2) m show ?thesis by auto
    next
      assume "(a, b) \<in> set (drop (j + k) W)"
      with r(2) m show ?thesis by auto
    qed
  qed
qed

lemma index_found_iff:
  assumes "areSortedFrom prev W"
  shows "indexOfIntervalContainingValue W v \<noteq> - 1 \<longleftrightarrow> (\<exists>(a, b) \<in> set W. a \<le> v \<and> v \<le> b)"
proof
  assume n: "indexOfIntervalContainingValue W v \<noteq> - 1"
  from indexLoop_range[of 0 W v] n
  obtain i where "i < length W" "fst (W ! i) \<le> v" "v \<le> snd (W ! i)"
    by (auto simp: indexOfIntervalContainingValue_def)
  then have "W ! i \<in> set W \<and> fst (W ! i) \<le> v \<and> v \<le> snd (W ! i)" by simp
  then show "\<exists>(a, b) \<in> set W. a \<le> v \<and> v \<le> b" by (metis (mono_tags, lifting) case_prod_beta)
next
  assume "\<exists>(a, b) \<in> set W. a \<le> v \<and> v \<le> b"
  then obtain a b where m: "(a, b) \<in> set W" "a \<le> v" "v \<le> b" by auto
  then obtain i where i: "i < length W" "W ! i = (a, b)" by (auto simp: in_set_conv_nth)
  from indexLoop_found[OF assms i(1), of v 0] i(2) m
  show "indexOfIntervalContainingValue W v \<noteq> - 1"
    by (simp add: indexOfIntervalContainingValue_def)
qed

subsection \<open>Reaching the goal post\<close>

lemma bestGoalLoop_Max:
  "sorted_wrt (<) (b # xs) \<Longrightarrow> b \<le> g \<Longrightarrow>
     bestGoalLoop g b xs = Max {p \<in> set (b # xs). p \<le> g}
     \<and> bestGoalLoop g b xs = last (filter (\<lambda>p. p \<le> g) (b # xs))"
proof (induction xs arbitrary: b)
  case Nil
  then have "{p \<in> set [b]. p \<le> g} = {b}" by auto
  with Nil show ?case by simp
next
  case (Cons x xs)
  show ?case
  proof (cases "g < x")
    case True
    have all: "\<forall>y \<in> set (x # xs). g < y" using Cons.prems(1) True by auto
    then have "{p \<in> set (b # x # xs). p \<le> g} = {b}" using Cons.prems(2) by auto
    moreover have "filter (\<lambda>p. p \<le> g) (x # xs) = []" using all by (auto simp: filter_empty_conv)
    ultimately show ?thesis using True Cons.prems(2) by simp
  next
    case False
    then have xg: "x \<le> g" by simp
    have s: "sorted_wrt (<) (x # xs)" using Cons.prems(1) by simp
    from Cons.IH[OF s xg] have ih: "bestGoalLoop g x xs = Max {p \<in> set (x # xs). p \<le> g}"
      "bestGoalLoop g x xs = last (filter (\<lambda>p. p \<le> g) (x # xs))" by simp_all
    have bx: "b < x" using Cons.prems(1) by simp
    have fin: "finite {p \<in> set (x # xs). p \<le> g}" by simp
    have ne: "{p \<in> set (x # xs). p \<le> g} \<noteq> {}" using xg by auto
    have "{p \<in> set (b # x # xs). p \<le> g} = insert b {p \<in> set (x # xs). p \<le> g}"
      using Cons.prems(2) by auto
    then have "Max {p \<in> set (b # x # xs). p \<le> g} = max b (Max {p \<in> set (x # xs). p \<le> g})"
      using fin ne by simp
    moreover have "x \<le> Max {p \<in> set (x # xs). p \<le> g}" using fin xg by (simp add: Max_ge_iff ne)
    ultimately have m: "Max {p \<in> set (b # x # xs). p \<le> g} = Max {p \<in> set (x # xs). p \<le> g}"
      using bx by simp
    have l: "last (filter (\<lambda>p. p \<le> g) (b # x # xs)) = last (filter (\<lambda>p. p \<le> g) (x # xs))"
      using xg by simp
    from ih m l False show ?thesis by simp
  qed
qed

lemma bestGoalPostIdOf_Max:
  assumes "postIds \<noteq> []" "sorted_wrt (>) postIds" "last postIds \<le> g"
  shows "bestGoalPostIdOf g postIds = Max {p \<in> set postIds. p \<le> g}"
    and "bestGoalPostIdOf g postIds = last (filter (\<lambda>p. p \<le> g) (rev postIds))"
    and "bestGoalPostIdOf g postIds \<in> set postIds \<and> bestGoalPostIdOf g postIds \<le> g"
proof -
  have r: "rev postIds = last postIds # tl (rev postIds)"
    using assms(1) by (metis hd_rev list.collapse rev_is_Nil_conv)
  have "sorted_wrt (<) (rev postIds)"
    using assms(2) by (simp add: sorted_wrt_rev)
  with r have s: "sorted_wrt (<) (last postIds # tl (rev postIds))" by metis
  have st: "set (last postIds # tl (rev postIds)) = set postIds"
    using r by (metis set_rev)
  from bestGoalLoop_Max[OF s assms(3)] st r
  show m: "bestGoalPostIdOf g postIds = Max {p \<in> set postIds. p \<le> g}"
    and "bestGoalPostIdOf g postIds = last (filter (\<lambda>p. p \<le> g) (rev postIds))"
    by (simp_all add: bestGoalPostIdOf_def)
  have "last postIds \<in> {p \<in> set postIds. p \<le> g}" using assms(1,3) by simp
  then have "{p \<in> set postIds. p \<le> g} \<noteq> {}" by blast
  moreover have "finite {p \<in> set postIds. p \<le> g}" by simp
  ultimately have "Max {p \<in> set postIds. p \<le> g} \<in> {p \<in> set postIds. p \<le> g}"
    by (rule Max_in[rotated])
  with m show "bestGoalPostIdOf g postIds \<in> set postIds \<and> bestGoalPostIdOf g postIds \<le> g"
    by simp
qed

lemma augmentIdentity_cases:
  "augmentIdentity c (oldest, newest) = (o1, n1) \<Longrightarrow> o1 = oldest \<and> n1 = newest"
  by (simp add: augmentIdentity_def)

lemma dashboardAugment_cases:
  assumes "dashboardAugment pg c (oldest, newest) = (o1, n1)"
  shows "(o1 = oldest \<or> indexOfIntervalContainingValue (witnessedPostIds c) o1 \<noteq> - 1)
       \<and> (n1 = newest \<or> indexOfIntervalContainingValue (witnessedPostIds c) n1 \<noteq> - 1)"
  using assms
  by (auto simp: dashboardAugment_def augmentIdentity_def Let_def split: if_splits option.splits)

lemma taggedAugment_cases:
  assumes "taggedAugment pg c (oldest, newest) = (o1, n1)"
  shows "o1 = oldest
       \<and> (n1 = newest \<or> indexOfIntervalContainingValue (witnessedPostIds c) n1 \<noteq> - 1)"
  using assms
  by (auto simp: taggedAugment_def augmentIdentity_def Let_def split: if_splits option.splits)

lemma initContext_cases:
  assumes "initContext pg = Inr (Some cx)"
  shows "(whereDashboard pg \<and> cx = dashboardContext pg)
       \<or> (\<not> whereDashboard pg \<and> (\<exists>b64. cx = taggedContext (''cursors:tagged:'' @ b64) pg))"
  using assms by (auto simp: initContext_def split: if_splits option.splits)

lemma areSortedFrom_change_prev:
  "areSortedFrom prev ((a, b) # r) \<Longrightarrow> q < a \<Longrightarrow> areSortedFrom (Some q) ((a, b) # r)"
  by (auto split: if_splits)

lemma covered_above_safe:
  assumes "areSortedFrom (Some g) W" "indexOfIntervalContainingValue W v \<noteq> - 1"
  shows "g < v \<and> isSafeInteger v"
proof -
  from index_found_iff[OF assms(1)] assms(2)
  obtain a b where m: "(a, b) \<in> set W" "a \<le> v" "v \<le> b" by auto
  from areSortedFrom_mem[OF assms(1) m(1)] m(2,3) show ?thesis
    by (auto simp: isSafeInteger_def)
qed

lemma reached_shape:
  assumes s: "areSortedFrom (Some g) W"
    and lt: "o1 < n1" and so: "isSafeInteger o1" and sn: "isSafeInteger n1"
    and idx: "indexOfIntervalContainingValue
                (snd (addToSortedDisjointSafeIntegerIntervals W (o1, n1))) g \<noteq> - 1"
  shows "o1 \<le> g \<and> fst (addToSortedDisjointSafeIntegerIntervals W (o1, n1))
       \<and> indexOfIntervalContainingValue
           (snd (addToSortedDisjointSafeIntegerIntervals W (o1, n1))) g = 0
       \<and> (\<exists>nl nh rest. snd (addToSortedDisjointSafeIntegerIntervals W (o1, n1)) = (nl, nh) # rest
             \<and> nl \<le> g \<and> g \<le> nh \<and> isSafeInteger nh \<and> areSortedFrom (Some nh) rest)"
proof -
  let ?W' = "snd (addToSortedDisjointSafeIntegerIntervals W (o1, n1))"
  have og: "o1 \<le> g"
  proof (rule ccontr)
    assume "\<not> o1 \<le> g"
    then have "g < o1" by simp
    from index_above[OF add_above[OF s this lt so sn]] idx show False by simp
  qed
  have upd: "fst (addToSortedDisjointSafeIntegerIntervals W (o1, n1))"
  proof (rule ccontr)
    assume "\<not> fst (addToSortedDisjointSafeIntegerIntervals W (o1, n1))"
    then have "?W' = W" by (rule add_not_updated)
    with index_above[OF s] idx show False by simp
  qed
  have "case None :: int option of None \<Rightarrow> True | Some p \<Rightarrow> p < o1" by simp
  from add_shape[OF areSortedFrom_None[OF s] lt so sn this] upd
  obtain j k nl nh where r: "j + k \<le> length W"
    "?W' = take j W @ (nl, nh) # drop (j + k) W"
    "areSortedFrom None (take j W @ (nl, nh) # drop (j + k) W)"
    "nl \<le> o1" "n1 \<le> nh"
    by blast
  have above: "\<And>a b. (a, b) \<in> set W \<Longrightarrow> g < a"
    using areSortedFrom_mem[OF s] by auto
  have j0: "j = 0"
  proof (rule ccontr)
    assume "j \<noteq> 0"
    then obtain j' where j: "j = Suc j'" by (cases j) auto
    with r(1) obtain x xs where W: "W = x # xs" by (cases W) auto
    obtain a b where x: "x = (a, b)" by (cases x)
    have "g < a" using above[of a b] W x by simp
    moreover have "areSortedFrom None ((a, b) # take j' xs @ (nl, nh) # drop (j' + k) xs)"
      using r(3) j W x by simp
    ultimately have "areSortedFrom (Some g) ((a, b) # take j' xs @ (nl, nh) # drop (j' + k) xs)"
      by (rule areSortedFrom_change_prev[rotated])
    then have "areSortedFrom (Some g) ?W'" using r(2) j W x by simp
    from index_above[OF this] idx show False by simp
  qed
  with r have W': "?W' = (nl, nh) # drop k W" and s': "areSortedFrom None ((nl, nh) # drop k W)"
    by simp_all
  have nlg: "nl \<le> g" using r(4) og by simp
  have rest: "\<forall>(a, b) \<in> set (drop k W). \<not> (a \<le> g \<and> g \<le> b)"
    using above by (fastforce dest: in_set_dropD)
  have gnh: "g \<le> nh"
  proof (rule ccontr)
    assume "\<not> g \<le> nh"
    then have "indexOfIntervalContainingValue ?W' g = - 1"
      using W' indexLoop_not_found[OF rest, of 1]
      by (simp add: indexOfIntervalContainingValue_def)
    with idx show False by simp
  qed
  have i0: "indexOfIntervalContainingValue ?W' g = 0"
    using W' nlg gnh by (simp add: indexOfIntervalContainingValue_def)
  have "isSafeInteger nh \<and> areSortedFrom (Some nh) (drop k W)"
    using s' by (auto split: if_splits)
  with og upd i0 W' nlg gnh show ?thesis by blast
qed

lemma reconcile_reached:
  assumes v: "validCursors c" and g: "goalPostId c = Some g"
    and ne: "postIds \<noteq> []"
    and safe: "\<forall>p \<in> set postIds. isSafePositiveInteger p"
    and ninit: "\<not> (initial \<and> hd postIds < g)"
    and w: "witnessedInterval c postIds initial augment = (o1, n1)"
    and ho: "o1 = last postIds \<or> indexOfIntervalContainingValue (witnessedPostIds c) o1 \<noteq> - 1"
    and hn: "n1 = hd postIds \<or> indexOfIntervalContainingValue (witnessedPostIds c) n1 \<noteq> - 1"
    and lt: "o1 < n1"
    and idx: "indexOfIntervalContainingValue
                (snd (addToSortedDisjointSafeIntegerIntervals (witnessedPostIds c) (o1, n1))) g \<noteq> - 1"
  shows "\<exists>nl nh rest.
           snd (addToSortedDisjointSafeIntegerIntervals (witnessedPostIds c) (o1, n1)) = (nl, nh) # rest
           \<and> reconcile c postIds initial firstPage augment update save st
               = saveAndReturn save
                   (update (c\<lparr>witnessedPostIds := (nl, nh) # rest\<rparr>
                             \<lparr>goalPostId := Some nh, witnessedPostIds := rest\<rparr>) postIds)
                   st (bestGoalPostIdOf g postIds)
           \<and> validCursors (c\<lparr>witnessedPostIds := (nl, nh) # rest\<rparr>
                             \<lparr>goalPostId := Some nh, witnessedPostIds := rest\<rparr>)
           \<and> g \<le> nh"
    and "last postIds \<le> g"
proof -
  let ?W = "witnessedPostIds c"
  from validCursors_above[OF v g] have gp: "isSafePositiveInteger g"
    and s: "areSortedFrom (Some g) ?W" by simp_all
  have sl: "isSafeInteger (last postIds)" and sh: "isSafeInteger (hd postIds)"
    using ne safe by (auto simp: isSafePositiveInteger_def)
  have so: "isSafeInteger o1" using ho sl covered_above_safe[OF s] by auto
  have sn: "isSafeInteger n1" using hn sh covered_above_safe[OF s] by auto
  from reached_shape[OF s lt so sn idx]
  obtain nl nh rest where r: "o1 \<le> g"
    "fst (addToSortedDisjointSafeIntegerIntervals ?W (o1, n1))"
    "indexOfIntervalContainingValue
       (snd (addToSortedDisjointSafeIntegerIntervals ?W (o1, n1))) g = 0"
    "snd (addToSortedDisjointSafeIntegerIntervals ?W (o1, n1)) = (nl, nh) # rest"
    "nl \<le> g" "g \<le> nh" "isSafeInteger nh" "areSortedFrom (Some nh) rest"
    by blast
  show og: "last postIds \<le> g"
    using ho r(1) covered_above_safe[OF s, of o1] by auto
  have a: "addToSortedDisjointSafeIntegerIntervals ?W (o1, n1) = (True, (nl, nh) # rest)"
    using r(2,4) by (metis prod.collapse)
  have nhp: "isSafePositiveInteger nh"
    using r(6,7) gp by (simp add: isSafePositiveInteger_def)
  have valid: "validCursors (c\<lparr>witnessedPostIds := (nl, nh) # rest\<rparr>
                             \<lparr>goalPostId := Some nh, witnessedPostIds := rest\<rparr>)"
    using nhp r(8)
    by (simp add: validCursors_def areSortedDisjointSafeIntegerIntervals_def
        isSafeInteger_def isSafePositiveInteger_def MAX_SAFE_INTEGER_def)
  have i0: "indexOfIntervalContainingValue ((nl, nh) # rest) g = 0"
    using r(3,4) by simp
  have "reconcile c postIds initial firstPage augment update save st
               = saveAndReturn save
                   (update (c\<lparr>witnessedPostIds := (nl, nh) # rest\<rparr>
                             \<lparr>goalPostId := Some nh, witnessedPostIds := rest\<rparr>) postIds)
                   st (bestGoalPostIdOf g postIds)"
    using ne g gp ninit lt w a i0 by (auto simp: reconcile_def Let_def)
  with r(4,6) valid show "\<exists>nl nh rest.
           snd (addToSortedDisjointSafeIntegerIntervals (witnessedPostIds c) (o1, n1)) = (nl, nh) # rest
           \<and> reconcile c postIds initial firstPage augment update save st
               = saveAndReturn save
                   (update (c\<lparr>witnessedPostIds := (nl, nh) # rest\<rparr>
                             \<lparr>goalPostId := Some nh, witnessedPostIds := rest\<rparr>) postIds)
                   st (bestGoalPostIdOf g postIds)
           \<and> validCursors (c\<lparr>witnessedPostIds := (nl, nh) # rest\<rparr>
                             \<lparr>goalPostId := Some nh, witnessedPostIds := rest\<rparr>)
           \<and> g \<le> nh"
    by blast
qed

lemma context_augment_cases:
  assumes "initContext pg = Inr (Some cx)"
    and "augmentWithAdjacencyHints cx c (oldest, newest) = (o1, n1)"
  shows "(o1 = oldest \<or> indexOfIntervalContainingValue (witnessedPostIds c) o1 \<noteq> - 1)
       \<and> (n1 = newest \<or> indexOfIntervalContainingValue (witnessedPostIds c) n1 \<noteq> - 1)"
proof -
  from initContext_cases[OF assms(1)] show ?thesis
  proof (elim disjE conjE exE)
    assume "cx = dashboardContext pg"
    with assms(2) have "dashboardAugment pg c (oldest, newest) = (o1, n1)"
      by (simp add: dashboardContext_def)
    then show ?thesis by (rule dashboardAugment_cases)
  next
    fix b64 assume "cx = taggedContext (''cursors:tagged:'' @ b64) pg"
    with assms(2) have "taggedAugment pg c (oldest, newest) = (o1, n1)"
      by (simp add: taggedContext_def)
    from taggedAugment_cases[OF this] show ?thesis by simp
  qed
qed

lemma witnessedInterval_cases:
  assumes "initContext pg = Inr (Some cx)"
    and "witnessedInterval c postIds initial (augmentWithAdjacencyHints cx) = (o1, n1)"
  shows "(o1 = last postIds \<or> indexOfIntervalContainingValue (witnessedPostIds c) o1 \<noteq> - 1)
       \<and> (n1 = hd postIds \<or> indexOfIntervalContainingValue (witnessedPostIds c) n1 \<noteq> - 1)"
proof (cases initial)
  case True
  with assms(2) have "augmentWithAdjacencyHints cx c (last postIds, hd postIds) = (o1, n1)"
    by (simp add: witnessedInterval_def)
  from context_augment_cases[OF assms(1) this] show ?thesis .
next
  case False
  with assms(2) show ?thesis by (simp add: witnessedInterval_def)
qed

text \<open>
  Claim C4. Let \<open>reconcile\<close> run in a context built by \<open>initContext\<close>, on valid cursors
  with goal post \<open>g\<close> and on post IDs that are safe positive integers in strictly
  decreasing order. Whenever the goal post is reached (after the witnessed interval is merged,
  \<open>g\<close> is contained in the witnessed intervals), the ID that \<open>reconcile\<close> returns is the
  last ID of the oldest-to-newest scan of \<open>postIds\<close> that does not exceed \<open>g\<close>, which is
  the largest observed ID at or below the old goal post. The dashboard always returns it; in
  a tagged view the only other outcome is that \<open>saveCursors\<close> rejects the cursors.
\<close>

theorem reconcile_reached_returns_best:
  assumes cx: "initContext pg = Inr (Some cx)"
    and v: "validCursors c" and g: "goalPostId c = Some g"
    and ne: "postIds \<noteq> []" and sorted: "sorted_wrt (>) postIds"
    and safe: "\<forall>p \<in> set postIds. isSafePositiveInteger p"
    and ninit: "\<not> (initial \<and> hd postIds < g)"
    and w: "witnessedInterval c postIds initial (augmentWithAdjacencyHints cx) = (o1, n1)"
    and lt: "o1 < n1"
    and idx: "indexOfIntervalContainingValue
                (snd (addToSortedDisjointSafeIntegerIntervals (witnessedPostIds c) (o1, n1))) g \<noteq> - 1"
    and r: "reconcile c postIds initial (isFirstPage cx) (augmentWithAdjacencyHints cx)
              (updateAdjacencyHints cx) (saveCursors cx) st = (out, c', st')"
  shows "case out of
           Returned resolved \<Rightarrow>
             resolved \<in> set postIds \<and> resolved \<le> g
             \<and> resolved = Max {p \<in> set postIds. p \<le> g}
             \<and> resolved = last (filter (\<lambda>p. p \<le> g) (rev postIds))
         | Threw e \<Rightarrow> \<not> whereDashboard pg \<and> e = ''Attempted to save invalid cursors''"
proof -
  from witnessedInterval_cases[OF cx w]
  have ho: "o1 = last postIds \<or> indexOfIntervalContainingValue (witnessedPostIds c) o1 \<noteq> - 1"
    and hn: "n1 = hd postIds \<or> indexOfIntervalContainingValue (witnessedPostIds c) n1 \<noteq> - 1"
    by simp_all
  from reconcile_reached(1)[OF v g ne safe ninit w ho hn lt idx, of "isFirstPage cx"
      "updateAdjacencyHints cx" "saveCursors cx" st]
  obtain nl nh rest where
    eq: "reconcile c postIds initial (isFirstPage cx) (augmentWithAdjacencyHints cx)
           (updateAdjacencyHints cx) (saveCursors cx) st
         = saveAndReturn (saveCursors cx)
             (updateAdjacencyHints cx (c\<lparr>witnessedPostIds := (nl, nh) # rest\<rparr>
                \<lparr>goalPostId := Some nh, witnessedPostIds := rest\<rparr>) postIds)
             st (bestGoalPostIdOf g postIds)"
    and valid: "validCursors (c\<lparr>witnessedPostIds := (nl, nh) # rest\<rparr>
                \<lparr>goalPostId := Some nh, witnessedPostIds := rest\<rparr>)"
    by blast
  from reconcile_reached(2)[OF v g ne safe ninit w ho hn lt idx]
  have og: "last postIds \<le> g" .
  note best = bestGoalPostIdOf_Max[OF ne sorted og]
  let ?c2 = "updateAdjacencyHints cx (c\<lparr>witnessedPostIds := (nl, nh) # rest\<rparr>
                \<lparr>goalPostId := Some nh, witnessedPostIds := rest\<rparr>) postIds"
  from r eq have "saveAndReturn (saveCursors cx) ?c2 st (bestGoalPostIdOf g postIds) = (out, c', st')"
    by simp
  from saveAndReturn_store[OF this]
  have "(\<exists>e. out = Threw e \<and> saveCursors cx ?c2 st = Inl e)
      \<or> out = Returned (bestGoalPostIdOf g postIds)"
    by blast
  then show ?thesis
  proof
    assume "out = Returned (bestGoalPostIdOf g postIds)"
    with best show ?thesis by simp
  next
    assume "\<exists>e. out = Threw e \<and> saveCursors cx ?c2 st = Inl e"
    then obtain e where e: "out = Threw e" "saveCursors cx ?c2 st = Inl e" by blast
    from initContext_cases[OF cx] show ?thesis
    proof (elim disjE conjE exE)
      assume "cx = dashboardContext pg"
      with e(2) valid have False
        by (simp add: dashboardContext_def dashboardSaveCursors_def)
      then show ?thesis ..
    next
      fix b64 assume "\<not> whereDashboard pg" "cx = taggedContext (''cursors:tagged:'' @ b64) pg"
      with e show ?thesis
        by (auto simp: taggedContext_def taggedSaveCursors_def split: if_splits)
    qed
  qed
qed

theorem reconcile_reached_returns_best_witness:
  "initContext \<lparr>whereDashboard = True, whereTagged = False, whereEndless = True,
         pathPageNumber = None, pathSignedPostId = None, tagBase64 = None,
         searchBefore = None, nextPageBefore = None\<rparr>
     = Inr (Some (dashboardContext \<lparr>whereDashboard = True, whereTagged = False, whereEndless = True,
         pathPageNumber = None, pathSignedPostId = None, tagBase64 = None,
         searchBefore = None, nextPageBefore = None\<rparr>))
   \<and> validCursors \<lparr>goalPostId = Some 100, witnessedPostIds = [(103, 105)], adjacencyHints = []\<rparr>
   \<and> sorted_wrt (>) [103, 102, 101, 100, 99 :: int]
   \<and> list_all isSafePositiveInteger [103, 102, 101, 100, 99]
   \<and> indexOfIntervalContainingValue
        (snd (addToSortedDisjointSafeIntegerIntervals [(103, 105)] (99, 103))) 100 = 0
   \<and> fst (reconcile \<lparr>goalPostId = Some 100, witnessedPostIds = [(103, 105)], adjacencyHints = []\<rparr>
        [103, 102, 101, 100, 99] False True augmentIdentity (\<lambda>c postIds. c) dashboardSaveCursors [])
      = Returned 100
   \<and> Max {p \<in> set [103, 102, 101, 100, 99]. p \<le> (100::int)} = 100
   \<and> last (filter (\<lambda>p. p \<le> (100::int)) (rev [103, 102, 101, 100, 99])) = 100"
proof -
  let ?pg = "\<lparr>whereDashboard = True, whereTagged = False, whereEndless = True,
         pathPageNumber = None, pathSignedPostId = None, tagBase64 = None,
         searchBefore = None, nextPageBefore = None\<rparr>"
  let ?c = "\<lparr>goalPostId = Some 100, witnessedPostIds = [(103, 105)], adjacencyHints = []\<rparr>"
  let ?ids = "[103, 102, 101, 100, 99 :: int]"
  let ?cx = "dashboardContext ?pg"
  have cx: "initContext ?pg = Inr (Some ?cx)" by (simp add: initContext_def)
  have fields: "isFirstPage ?cx = True" "augmentWithAdjacencyHints ?cx = augmentIdentity"
    "updateAdjacencyHints ?cx = (\<lambda>c postIds. c)" "saveCursors ?cx = dashboardSaveCursors"
    by (simp_all add: dashboardContext_def dashboardIsFirstPage_def dashboardAugment_def)
  have v: "validCursors ?c" by (simp add: separator_eval)
  have g: "goalPostId ?c = Some 100" by simp
  have ne: "?ids \<noteq> []" by simp
  have sorted: "sorted_wrt (>) ?ids" by simp
  have safe: "\<forall>p \<in> set ?ids. isSafePositiveInteger p" by (simp add: separator_eval)
  have ninit: "\<not> (False \<and> hd ?ids < 100)" by simp
  have w: "witnessedInterval ?c ?ids False (augmentWithAdjacencyHints ?cx) = (99, 103)"
    by (simp add: witnessedInterval_def)
  have lt: "(99::int) < 103" by simp
  have i0: "indexOfIntervalContainingValue
        (snd (addToSortedDisjointSafeIntegerIntervals [(103, 105)] (99, 103))) 100 = 0"
    by (simp add: separator_eval)
  then have idx: "indexOfIntervalContainingValue
        (snd (addToSortedDisjointSafeIntegerIntervals (witnessedPostIds ?c) (99, 103))) 100 \<noteq> - 1"
    by simp
  have rr: "reconcile ?c ?ids False True augmentIdentity (\<lambda>c postIds. c) dashboardSaveCursors []
      = (Returned 100, \<lparr>goalPostId = Some 105, witnessedPostIds = [], adjacencyHints = []\<rparr>,
         [(''cursors:dashboard'', Stored2 (Some 105) [])])"
    by (simp add: separator_eval)
  then have r: "reconcile ?c ?ids False (isFirstPage ?cx) (augmentWithAdjacencyHints ?cx)
              (updateAdjacencyHints ?cx) (saveCursors ?cx) []
      = (Returned 100, \<lparr>goalPostId = Some 105, witnessedPostIds = [], adjacencyHints = []\<rparr>,
         [(''cursors:dashboard'', Stored2 (Some 105) [])])"
    by (simp only: fields)
  from reconcile_reached_returns_best[OF cx v g ne sorted safe ninit w lt idx r]
  have m: "100 = Max {p \<in> set ?ids. p \<le> 100}"
    "100 = last (filter (\<lambda>p. p \<le> 100) (rev ?ids))" by simp_all
  have la: "list_all isSafePositiveInteger ?ids" using safe by (simp add: list_all_iff)
  from cx v sorted la i0 rr m show ?thesis by simp
qed

text \<open>
  The other outcome does occur in a tagged view: when an interval stays behind after the
  first one is absorbed, a hint into the absorbed interval is still in the map, and
  \<open>saveCursors\<close> rejects the cursors.
\<close>

lemma tagged_reached_stale_hint:
  "validTaggedCursors
     \<lparr>goalPostId = Some 100, witnessedPostIds = [(103, 105), (110, 112)],
      adjacencyHints = [(7, 103)]\<rparr>
   \<and> reconcile
        \<lparr>goalPostId = Some 100, witnessedPostIds = [(103, 105), (110, 112)],
         adjacencyHints = [(7, 103)]\<rparr>
        [103, 102, 101, 100, 99] False False augmentIdentity
        (taggedUpdateAdjacencyHints pg) (taggedSaveCursors key) st
      = (Threw ''Attempted to save invalid cursors'',
         taggedUpdateAdjacencyHints pg
           \<lparr>goalPostId = Some 105, witnessedPostIds = [(110, 112)], adjacencyHints = [(7, 103)]\<rparr>
           [103, 102, 101, 100, 99],
         st)"
  by (auto simp add: separator_eval split: option.splits)

subsection \<open>Batches older and newer than the goal post\<close>

text \<open>
  The post IDs that \<open>enumerateDashboardPostIds\<close> hands to \<open>reconcile\<close> are safe
  positive integers in strictly decreasing order, as \<open>reconcile\<close> assumes.
\<close>

lemma enumerateLoop_sorted:
  "enumerateLoop prev elems = Inr postIds \<Longrightarrow>
     sorted_wrt (>) postIds \<and> (\<forall>p \<in> set postIds. isSafePositiveInteger p)
     \<and> (case prev of None \<Rightarrow> True | Some q \<Rightarrow> \<forall>p \<in> set postIds. p < q)"
proof (induction elems arbitrary: prev postIds)
  case Nil
  then show ?case by (auto split: option.splits)
next
  case (Cons x elems)
  show ?case
  proof (cases "staffPick x")
    case True
    with Cons show ?thesis by simp
  next
    case False
    with Cons.prems obtain postId ids where p: "dataId x = Some postId"
      "isSafePositiveInteger postId" "\<not> (case prev of None \<Rightarrow> False | Some q \<Rightarrow> postId \<ge> q)"
      "enumerateLoop (Some postId) elems = Inr ids" "postIds = postId # ids"
      by (auto split: option.splits if_splits sum.splits)
    from Cons.IH[OF p(4)] have ih: "sorted_wrt (>) ids" "\<forall>p \<in> set ids. isSafePositiveInteger p"
      "\<forall>p \<in> set ids. p < postId" by simp_all
    with p(2,3,5) show ?thesis by (auto split: option.splits)
  qed
qed

lemma enumerateDashboardPostIds_sorted:
  "enumerateDashboardPostIds elems = Inr postIds \<Longrightarrow>
     sorted_wrt (>) postIds \<and> (\<forall>p \<in> set postIds. isSafePositiveInteger p)"
  using enumerateLoop_sorted[of None elems postIds]
  by (simp add: enumerateDashboardPostIds_def)

lemma reconcile_not_reached:
  assumes g: "goalPostId c = Some g" and gp: "isSafePositiveInteger g"
    and ne: "postIds \<noteq> []"
    and ninit: "\<not> (initial \<and> hd postIds < g)"
    and w: "witnessedInterval c postIds initial augment = (o1, n1)"
    and lt: "o1 < n1"
    and idx: "indexOfIntervalContainingValue
                (snd (addToSortedDisjointSafeIntegerIntervals (witnessedPostIds c) (o1, n1))) g = - 1"
  shows "reconcile c postIds initial firstPage augment update save st
           = (if fst (addToSortedDisjointSafeIntegerIntervals (witnessedPostIds c) (o1, n1))
              then saveAndReturn save
                     (update (c\<lparr>witnessedPostIds :=
                        snd (addToSortedDisjointSafeIntegerIntervals (witnessedPostIds c) (o1, n1))\<rparr>)
                        postIds)
                     st RECONCILE_DEFER
              else (Returned RECONCILE_DEFER,
                    c\<lparr>witnessedPostIds :=
                        snd (addToSortedDisjointSafeIntegerIntervals (witnessedPostIds c) (o1, n1))\<rparr>,
                    st))"
proof -
  obtain u W' where a: "addToSortedDisjointSafeIntegerIntervals (witnessedPostIds c) (o1, n1) = (u, W')"
    by (cases "addToSortedDisjointSafeIntegerIntervals (witnessedPostIds c) (o1, n1)")
  with idx have i: "indexOfIntervalContainingValue W' g = - 1" by simp
  show ?thesis
    using ne g gp ninit lt w a i by (auto simp: reconcile_def Let_def)
qed

lemma set_update_subset:
  "set (AList.update k v al) \<subseteq> insert (k, v) (set al)"
  by (induction al) auto

lemma hintsLoop_iff:
  "hintsLoop W h \<longleftrightarrow>
     (\<forall>(t, p) \<in> set h. isSafePositiveInteger t \<and> isSafePositiveInteger p
        \<and> indexOfIntervalContainingValue W p \<noteq> - 1)"
  by (induction h) (auto split: if_splits)

lemma merge_above_goal:
  assumes v: "validCursors c" and g: "goalPostId c = Some g"
    and gl: "g < lo" and lt: "lo < hi" and sl: "isSafeInteger lo" and sh: "isSafeInteger hi"
  shows "areSortedFrom (Some g) (snd (addToSortedDisjointSafeIntegerIntervals (witnessedPostIds c) (lo, hi)))"
    and "indexOfIntervalContainingValue
           (snd (addToSortedDisjointSafeIntegerIntervals (witnessedPostIds c) (lo, hi))) g = - 1"
    and "validCursors (c\<lparr>witnessedPostIds :=
           snd (addToSortedDisjointSafeIntegerIntervals (witnessedPostIds c) (lo, hi))\<rparr>)"
    and "\<exists>(a, b) \<in> set (snd (addToSortedDisjointSafeIntegerIntervals (witnessedPostIds c) (lo, hi))).
           a \<le> lo \<and> hi \<le> b"
proof -
  let ?W' = "snd (addToSortedDisjointSafeIntegerIntervals (witnessedPostIds c) (lo, hi))"
  from validCursors_above[OF v g] have gp: "isSafePositiveInteger g"
    and s: "areSortedFrom (Some g) (witnessedPostIds c)" by simp_all
  show s': "areSortedFrom (Some g) ?W'" by (rule add_above[OF s gl lt sl sh])
  show "indexOfIntervalContainingValue ?W' g = - 1" by (rule index_above[OF s'])
  show "validCursors (c\<lparr>witnessedPostIds := ?W'\<rparr>)"
    using g gp s'
    by (simp add: validCursors_def areSortedDisjointSafeIntegerIntervals_def
        isSafeInteger_def isSafePositiveInteger_def MAX_SAFE_INTEGER_def)
  have p: "case Some g of None \<Rightarrow> True | Some p \<Rightarrow> p < lo" using gl by simp
  show "\<exists>(a, b) \<in> set ?W'. a \<le> lo \<and> hi \<le> b"
  proof (cases "fst (addToSortedDisjointSafeIntegerIntervals (witnessedPostIds c) (lo, hi))")
    case True
    from add_shape[OF s lt sl sh p] True obtain j k nl nh where
      "?W' = take j (witnessedPostIds c) @ (nl, nh) # drop (j + k) (witnessedPostIds c)"
      "nl \<le> lo" "hi \<le> nh" by blast
    then have "(nl, nh) \<in> set ?W' \<and> nl \<le> lo \<and> hi \<le> nh" by simp
    then show ?thesis by blast
  next
    case False
    from add_not_updated_iff[OF s lt sl sh p] False
    obtain x y where c: "(x, y) \<in> set (witnessedPostIds c)" "x \<le> lo" "hi \<le> y" by auto
    with add_not_updated[OF False] have "(x, y) \<in> set ?W' \<and> x \<le> lo \<and> hi \<le> y" by simp
    then show ?thesis by blast
  qed
qed

lemma validTaggedCursors_hints:
  assumes "validTaggedCursors c" "(t, p) \<in> set (adjacencyHints c)"
  shows "isSafePositiveInteger t \<and> isSafePositiveInteger p
       \<and> indexOfIntervalContainingValue (witnessedPostIds c) p \<noteq> - 1"
proof (cases "witnessedPostIds c = []")
  case True
  with assms show ?thesis by (simp add: validTaggedCursors_def split: if_splits)
next
  case False
  with assms(1) have "hintsLoop (witnessedPostIds c) (adjacencyHints c)"
    by (simp add: validTaggedCursors_def split: if_splits)
  with assms(2) show ?thesis by (auto simp: hintsLoop_iff)
qed

lemma tagged_merge_valid:
  assumes vt: "validTaggedCursors c" and g: "goalPostId c = Some g"
    and gl: "g < lo" and lt: "lo < hi" and sl: "isSafeInteger lo" and sh: "isSafeInteger hi"
    and last: "lo \<le> last postIds" "last postIds \<le> hi"
  shows "validTaggedCursors
           (taggedUpdateAdjacencyHints pg
              (c\<lparr>witnessedPostIds :=
                   snd (addToSortedDisjointSafeIntegerIntervals (witnessedPostIds c) (lo, hi))\<rparr>)
              postIds)"
proof -
  let ?W = "witnessedPostIds c"
  let ?W' = "snd (addToSortedDisjointSafeIntegerIntervals ?W (lo, hi))"
  let ?c1 = "c\<lparr>witnessedPostIds := ?W'\<rparr>"
  let ?c2 = "taggedUpdateAdjacencyHints pg ?c1 postIds"
  from vt have v: "validCursors c" by (simp add: validTaggedCursors_def split: if_splits)
  from validCursors_above[OF v g] have gp: "isSafePositiveInteger g"
    and s: "areSortedFrom (Some g) ?W" by simp_all
  note m = merge_above_goal[OF v g gl lt sl sh]
  have p: "case Some g of None \<Rightarrow> True | Some p \<Rightarrow> p < lo" using gl by simp
  from m(4) have ne: "?W' \<noteq> []" by auto
  have fields: "goalPostId ?c2 = goalPostId ?c1" "witnessedPostIds ?c2 = ?W'"
    using ne by (auto simp: taggedUpdateAdjacencyHints_def Let_def split: option.splits)
  have v2: "validCursors ?c2"
    using m(3) fields g gp by (simp add: validCursors_def)
  have old: "isSafePositiveInteger t \<and> isSafePositiveInteger q
       \<and> indexOfIntervalContainingValue ?W' q \<noteq> - 1" if "(t, q) \<in> set (adjacencyHints c)" for t q
  proof -
    from validTaggedCursors_hints[OF vt that] have h: "isSafePositiveInteger t"
      "isSafePositiveInteger q" "indexOfIntervalContainingValue ?W q \<noteq> - 1" by simp_all
    from h(3) index_found_iff[OF s] have "\<exists>(a, b) \<in> set ?W. a \<le> q \<and> q \<le> b" by simp
    then have "\<exists>(a, b) \<in> set ?W'. a \<le> q \<and> q \<le> b"
      using add_covers[OF s lt sl sh p, of q] by blast
    with index_found_iff[OF m(1)] have "indexOfIntervalContainingValue ?W' q \<noteq> - 1" by simp
    with h show ?thesis by simp
  qed
  have lastp: "isSafePositiveInteger (last postIds)"
    using last gl gp sh by (auto simp: isSafePositiveInteger_def isSafeInteger_def)
  have lastc: "indexOfIntervalContainingValue ?W' (last postIds) \<noteq> - 1"
  proof -
    have "\<exists>(a, b) \<in> set ?W'. a \<le> last postIds \<and> last postIds \<le> b"
      using add_covers[OF s lt sl sh p, of "last postIds"] last by blast
    with index_found_iff[OF m(1)] show ?thesis by simp
  qed
  have hints: "isSafePositiveInteger t \<and> isSafePositiveInteger q
       \<and> indexOfIntervalContainingValue ?W' q \<noteq> - 1" if "(t, q) \<in> set (adjacencyHints ?c2)" for t q
  proof (cases "(t, q) \<in> set (adjacencyHints c)")
    case True
    then show ?thesis by (rule old)
  next
    case False
    with that ne set_update_subset[of _ "last postIds" "adjacencyHints c"]
    have "q = last postIds \<and> isSafePositiveInteger t"
      by (auto simp: taggedUpdateAdjacencyHints_def Let_def split: option.splits if_splits)
    with lastp lastc show ?thesis by simp
  qed
  then have "hintsLoop ?W' (adjacencyHints ?c2)" by (auto simp: hintsLoop_iff)
  with v2 fields ne show ?thesis by (simp add: validTaggedCursors_def)
qed

lemma dashboard_first_page:
  "dashboardIsFirstPage pg \<Longrightarrow>
     isFirstPage (dashboardContext pg) \<and> augmentWithAdjacencyHints (dashboardContext pg) = augmentIdentity"
  by (simp add: dashboardContext_def dashboardAugment_def)

lemma tagged_first_page:
  "taggedIsFirstPage pg \<Longrightarrow>
     isFirstPage (taggedContext key pg) \<and> augmentWithAdjacencyHints (taggedContext key pg) = augmentIdentity"
  by (auto simp: taggedContext_def taggedAugment_def taggedIsFirstPage_def split: option.splits)

lemma reconcile_older_batch:
  assumes "goalPostId c = Some g" and "isSafePositiveInteger g" and "postIds \<noteq> []"
    and "isSafePositiveInteger (hd postIds)" and "hd postIds < g"
  shows "reconcile c postIds True True augment (\<lambda>c postIds. c) dashboardSaveCursors st
           = (Returned (hd postIds),
              c\<lparr>goalPostId := Some (hd postIds), witnessedPostIds := []\<rparr>,
              (''cursors:dashboard'', Stored2 (Some (hd postIds)) []) # st)"
    and "reconcile c postIds True True augment (taggedUpdateAdjacencyHints pg)
             (taggedSaveCursors key) st
           = (Returned (hd postIds),
              c\<lparr>goalPostId := Some (hd postIds), witnessedPostIds := [], adjacencyHints := []\<rparr>,
              (key, Stored3 (Some (hd postIds)) [] []) # st)"
    and "reconcile c postIds True False augment update save st = (Returned RECONCILE_ABORT, c, st)"
proof -
  have v: "validCursors (c\<lparr>goalPostId := Some (hd postIds), witnessedPostIds := []\<rparr>)"
    using assms(4)
    by (simp add: validCursors_def areSortedDisjointSafeIntegerIntervals_def
        isSafePositiveInteger_def isSafeInteger_def MAX_SAFE_INTEGER_def)
  have vt: "validTaggedCursors
      (c\<lparr>goalPostId := Some (hd postIds), witnessedPostIds := [], adjacencyHints := []\<rparr>)"
    using assms(4)
    by (simp add: validTaggedCursors_def validCursors_def areSortedDisjointSafeIntegerIntervals_def
        isSafePositiveInteger_def isSafeInteger_def MAX_SAFE_INTEGER_def)
  show "reconcile c postIds True True augment (\<lambda>c postIds. c) dashboardSaveCursors st
           = (Returned (hd postIds),
              c\<lparr>goalPostId := Some (hd postIds), witnessedPostIds := []\<rparr>,
              (''cursors:dashboard'', Stored2 (Some (hd postIds)) []) # st)"
    using assms v
    by (simp add: reconcile_def saveAndReturn_def dashboardSaveCursors_def storageSet_def Let_def)
  show "reconcile c postIds True True augment (taggedUpdateAdjacencyHints pg)
             (taggedSaveCursors key) st
           = (Returned (hd postIds),
              c\<lparr>goalPostId := Some (hd postIds), witnessedPostIds := [], adjacencyHints := []\<rparr>,
              (key, Stored3 (Some (hd postIds)) [] []) # st)"
    using assms vt
    by (simp add: reconcile_def saveAndReturn_def taggedSaveCursors_def storageSet_def
        taggedUpdateAdjacencyHints_def Let_def)
  show "reconcile c postIds True False augment update save st = (Returned RECONCILE_ABORT, c, st)"
    using assms by (simp add: reconcile_def Let_def)
qed

text \<open>
  Claim C7. On the initial pass, with a goal post that is a safe positive integer and a
  newest observed ID (a safe positive integer) strictly below it: on the first page
  \<open>reconcile\<close> sets the goal post to the newest observed ID, empties the witnessed
  intervals, refreshes the hints (the tagged view's map is cleared), persists and returns
  that ID; on any other page it returns \<open>RECONCILE_ABORT\<close> and leaves the cursors object
  and the store as they were.
\<close>

theorem reconcile_batch_older_than_goal_post:
  assumes "goalPostId c = Some g" and "isSafePositiveInteger g" and "postIds \<noteq> []"
    and "isSafePositiveInteger (hd postIds)" and "hd postIds < g"
  shows "reconcile c postIds True True augment (\<lambda>c postIds. c) dashboardSaveCursors st
           = (Returned (hd postIds),
              c\<lparr>goalPostId := Some (hd postIds), witnessedPostIds := []\<rparr>,
              (''cursors:dashboard'', Stored2 (Some (hd postIds)) []) # st)
       \<and> reconcile c postIds True True augment (taggedUpdateAdjacencyHints pg)
             (taggedSaveCursors key) st
           = (Returned (hd postIds),
              c\<lparr>goalPostId := Some (hd postIds), witnessedPostIds := [], adjacencyHints := []\<rparr>,
              (key, Stored3 (Some (hd postIds)) [] []) # st)
       \<and> reconcile c postIds True False augment update save st = (Returned RECONCILE_ABORT, c, st)"
  using reconcile_older_batch[OF assms] by simp

theorem reconcile_batch_older_than_goal_post_witness:
  "isSafePositiveInteger 100 \<and> isSafePositiveInteger 99 \<and> (99::int) < 100
   \<and> reconcile \<lparr>goalPostId = Some 100, witnessedPostIds = [(103, 105)], adjacencyHints = [(7, 103)]\<rparr>
        [99, 98] True True augmentIdentity (\<lambda>c postIds. c) dashboardSaveCursors []
      = (Returned 99,
         \<lparr>goalPostId = Some 99, witnessedPostIds = [], adjacencyHints = [(7, 103)]\<rparr>,
         [(''cursors:dashboard'', Stored2 (Some 99) [])])
   \<and> reconcile \<lparr>goalPostId = Some 100, witnessedPostIds = [(103, 105)], adjacencyHints = [(7, 103)]\<rparr>
        [99, 98] True True augmentIdentity
        (taggedUpdateAdjacencyHints \<lparr>whereDashboard = False, whereTagged = True,
           whereEndless = False, pathPageNumber = None, pathSignedPostId = None,
           tagBase64 = Some ''Zm9v'', searchBefore = Some 0, nextPageBefore = Some 8\<rparr>)
        (taggedSaveCursors ''cursors:tagged:Zm9v'') []
      = (Returned 99,
         \<lparr>goalPostId = Some 99, witnessedPostIds = [], adjacencyHints = []\<rparr>,
         [(''cursors:tagged:Zm9v'', Stored3 (Some 99) [] [])])
   \<and> reconcile \<lparr>goalPostId = Some 100, witnessedPostIds = [(103, 105)], adjacencyHints = [(7, 103)]\<rparr>
        [99, 98] True False augmentIdentity (\<lambda>c postIds. c) dashboardSaveCursors []
      = (Returned 0,
         \<lparr>goalPostId = Some 100, witnessedPostIds = [(103, 105)], adjacencyHints = [(7, 103)]\<rparr>,
         [])"
proof -
  let ?c = "\<lparr>goalPostId = Some 100, witnessedPostIds = [(103, 105)], adjacencyHints = [(7, 103)]\<rparr>"
  have h1: "goalPostId ?c = Some 100" by simp
  have h2: "isSafePositiveInteger 100" and h4: "isSafePositiveInteger (hd [99, 98])"
    by (simp_all add: isSafePositiveInteger_def isSafeInteger_def MAX_SAFE_INTEGER_def)
  have h3: "[99, 98 :: int] \<noteq> []" by simp
  have h5: "hd [99, 98 :: int] < 100" by simp
  from reconcile_batch_older_than_goal_post[OF h1 h2 h3 h4 h5] h2 h4
  show ?thesis by (simp add: RECONCILE_ABORT_def)
qed

text \<open>
  Claim C2 states that, with goal post \<open>100\<close>, an initial pass on the first page over the
  batch \<open>110, 109, ..., 101\<close> resets the goal post to \<open>110\<close> and returns \<open>110\<close>. The
  batch is newer than the goal post, so \<open>reconcile\<close> records the interval \<open>[101, 110]\<close>,
  keeps the goal post and returns \<open>RECONCILE_DEFER\<close>.
\<close>

theorem deleted_goal_post_recovery_counterexample:
  "validCursors \<lparr>goalPostId = Some 100, witnessedPostIds = [], adjacencyHints = []\<rparr>
   \<and> reconcile \<lparr>goalPostId = Some 100, witnessedPostIds = [], adjacencyHints = []\<rparr>
        [110, 109, 108, 107, 106, 105, 104, 103, 102, 101] True True augmentIdentity
        (\<lambda>c postIds. c) dashboardSaveCursors []
      = (Returned RECONCILE_DEFER,
         \<lparr>goalPostId = Some 100, witnessedPostIds = [(101, 110)], adjacencyHints = []\<rparr>,
         [(''cursors:dashboard'', Stored2 (Some 100) [(101, 110)])])
   \<and> RECONCILE_DEFER \<noteq> 110"
  by (simp add: separator_eval)

lemma reconcile_newer_batch:
  assumes v: "validCursors c" and g: "goalPostId c = Some g"
    and ne: "postIds \<noteq> []" and gl: "g < last postIds" and lt: "last postIds < hd postIds"
    and sl: "isSafeInteger (last postIds)" and sh: "isSafeInteger (hd postIds)"
    and aug: "initial \<longrightarrow> augment = augmentIdentity"
  shows "reconcile c postIds initial firstPage augment update save st
           = (if fst (addToSortedDisjointSafeIntegerIntervals (witnessedPostIds c)
                        (last postIds, hd postIds))
              then saveAndReturn save
                     (update (c\<lparr>witnessedPostIds :=
                        snd (addToSortedDisjointSafeIntegerIntervals (witnessedPostIds c)
                               (last postIds, hd postIds))\<rparr>) postIds)
                     st RECONCILE_DEFER
              else (Returned RECONCILE_DEFER,
                    c\<lparr>witnessedPostIds :=
                        snd (addToSortedDisjointSafeIntegerIntervals (witnessedPostIds c)
                               (last postIds, hd postIds))\<rparr>,
                    st))"
proof -
  from validCursors_above[OF v g] have gp: "isSafePositiveInteger g" by simp
  have w: "witnessedInterval c postIds initial augment = (last postIds, hd postIds)"
    using aug by (auto simp: witnessedInterval_def augmentIdentity_def Let_def)
  have ninit: "\<not> (initial \<and> hd postIds < g)" using gl lt by simp
  note m = merge_above_goal[OF v g gl lt sl sh]
  from reconcile_not_reached[OF g gp ne ninit w lt m(2)] show ?thesis .
qed

text \<open>
  Claim C2, amended. With goal post \<open>100\<close>, an initial pass on the first page resets the
  goal post only for a batch that is entirely older than it: over \<open>99, 98, ..., 90\<close> the
  goal post becomes \<open>99\<close>, the witnessed intervals and the hints are cleared, the cursors
  are persisted and \<open>99\<close> is returned. Over \<open>110, 109, ..., 101\<close>, on valid cursors,
  \<open>reconcile\<close> returns \<open>RECONCILE_DEFER\<close>, keeps the goal post at \<open>100\<close>, merges
  \<open>[101, 110]\<close> into the witnessed intervals (one interval then covers it) and persists
  the cursors when the intervals changed.
\<close>

theorem deleted_goal_post_recovery:
  assumes g: "goalPostId c = Some 100"
  shows "reconcile c [99, 98, 97, 96, 95, 94, 93, 92, 91, 90] True True augment
             (updateAdjacencyHints (dashboardContext pg)) (saveCursors (dashboardContext pg)) st
           = (Returned 99, c\<lparr>goalPostId := Some 99, witnessedPostIds := []\<rparr>,
              (''cursors:dashboard'', Stored2 (Some 99) []) # st)
       \<and> reconcile c [99, 98, 97, 96, 95, 94, 93, 92, 91, 90] True True augment
             (updateAdjacencyHints (taggedContext key pg)) (saveCursors (taggedContext key pg)) st
           = (Returned 99,
              c\<lparr>goalPostId := Some 99, witnessedPostIds := [], adjacencyHints := []\<rparr>,
              (key, Stored3 (Some 99) [] []) # st)
       \<and> (validCursors c \<longrightarrow> dashboardIsFirstPage pg \<longrightarrow>
            reconcile c [110, 109, 108, 107, 106, 105, 104, 103, 102, 101] True
              (isFirstPage (dashboardContext pg)) (augmentWithAdjacencyHints (dashboardContext pg))
              (updateAdjacencyHints (dashboardContext pg)) (saveCursors (dashboardContext pg)) st
            = (Returned RECONCILE_DEFER,
               c\<lparr>witnessedPostIds :=
                   snd (addToSortedDisjointSafeIntegerIntervals (witnessedPostIds c) (101, 110))\<rparr>,
               if fst (addToSortedDisjointSafeIntegerIntervals (witnessedPostIds c) (101, 110))
               then (''cursors:dashboard'', Stored2 (Some 100)
                       (snd (addToSortedDisjointSafeIntegerIntervals (witnessedPostIds c) (101, 110))))
                    # st
               else st))
       \<and> (validTaggedCursors c \<longrightarrow> taggedIsFirstPage pg \<longrightarrow>
            reconcile c [110, 109, 108, 107, 106, 105, 104, 103, 102, 101] True
              (isFirstPage (taggedContext key pg)) (augmentWithAdjacencyHints (taggedContext key pg))
              (updateAdjacencyHints (taggedContext key pg)) (saveCursors (taggedContext key pg)) st
            = (if fst (addToSortedDisjointSafeIntegerIntervals (witnessedPostIds c) (101, 110))
               then (Returned RECONCILE_DEFER,
                     taggedUpdateAdjacencyHints pg
                       (c\<lparr>witnessedPostIds :=
                           snd (addToSortedDisjointSafeIntegerIntervals (witnessedPostIds c) (101, 110))\<rparr>)
                       [110, 109, 108, 107, 106, 105, 104, 103, 102, 101],
                     (key, Stored3 (Some 100)
                        (snd (addToSortedDisjointSafeIntegerIntervals (witnessedPostIds c) (101, 110)))
                        (adjacencyHints (taggedUpdateAdjacencyHints pg
                           (c\<lparr>witnessedPostIds :=
                               snd (addToSortedDisjointSafeIntegerIntervals (witnessedPostIds c) (101, 110))\<rparr>)
                           [110, 109, 108, 107, 106, 105, 104, 103, 102, 101]))) # st)
               else (Returned RECONCILE_DEFER, c, st)))
       \<and> (validCursors c \<longrightarrow>
            (\<exists>(a, b) \<in> set (snd (addToSortedDisjointSafeIntegerIntervals
                                   (witnessedPostIds c) (101, 110))). a \<le> 101 \<and> 110 \<le> b))"
proof -
  let ?old = "[99, 98, 97, 96, 95, 94, 93, 92, 91, 90 :: int]"
  let ?new = "[110, 109, 108, 107, 106, 105, 104, 103, 102, 101 :: int]"
  let ?a = "addToSortedDisjointSafeIntegerIntervals (witnessedPostIds c) (101, 110)"
  have gp: "isSafePositiveInteger 100" and np: "isSafePositiveInteger (hd ?old)"
    and sl: "isSafeInteger (last ?new)" and sh: "isSafeInteger (hd ?new)"
    by (simp_all add: isSafePositiveInteger_def isSafeInteger_def MAX_SAFE_INTEGER_def)
  have ne: "?old \<noteq> []" and lt: "hd ?old < 100" by simp_all
  note reset = reconcile_older_batch[OF g gp ne np lt]
  have A: "reconcile c ?old True True augment
             (updateAdjacencyHints (dashboardContext pg)) (saveCursors (dashboardContext pg)) st
           = (Returned 99, c\<lparr>goalPostId := Some 99, witnessedPostIds := []\<rparr>,
              (''cursors:dashboard'', Stored2 (Some 99) []) # st)"
    using reset(1)[of augment st] by (simp add: dashboardContext_def)
  have B: "reconcile c ?old True True augment
             (updateAdjacencyHints (taggedContext key pg)) (saveCursors (taggedContext key pg)) st
           = (Returned 99,
              c\<lparr>goalPostId := Some 99, witnessedPostIds := [], adjacencyHints := []\<rparr>,
              (key, Stored3 (Some 99) [] []) # st)"
    using reset(2)[of augment pg key st] by (simp add: taggedContext_def)
  have nne: "?new \<noteq> []" and gl: "100 < last ?new" and nlt: "last ?new < hd ?new" by simp_all
  have C: "reconcile c ?new True
              (isFirstPage (dashboardContext pg)) (augmentWithAdjacencyHints (dashboardContext pg))
              (updateAdjacencyHints (dashboardContext pg)) (saveCursors (dashboardContext pg)) st
            = (Returned RECONCILE_DEFER, c\<lparr>witnessedPostIds := snd ?a\<rparr>,
               if fst ?a then (''cursors:dashboard'', Stored2 (Some 100) (snd ?a)) # st else st)"
    if v: "validCursors c" and fp: "dashboardIsFirstPage pg"
  proof -
    have aug: "True \<longrightarrow> augmentWithAdjacencyHints (dashboardContext pg) = augmentIdentity"
      using dashboard_first_page[OF fp] by simp
    have valid: "validCursors (c\<lparr>witnessedPostIds := snd ?a\<rparr>)"
      using merge_above_goal(3)[OF v g gl nlt sl sh] by simp
    from reconcile_newer_batch[OF v g nne gl nlt sl sh aug,
        of "isFirstPage (dashboardContext pg)" "updateAdjacencyHints (dashboardContext pg)"
           "saveCursors (dashboardContext pg)" st]
    show ?thesis using valid g
      by (simp add: dashboardContext_def saveAndReturn_def dashboardSaveCursors_def storageSet_def)
  qed
  have D: "reconcile c ?new True
              (isFirstPage (taggedContext key pg)) (augmentWithAdjacencyHints (taggedContext key pg))
              (updateAdjacencyHints (taggedContext key pg)) (saveCursors (taggedContext key pg)) st
            = (if fst ?a
               then (Returned RECONCILE_DEFER,
                     taggedUpdateAdjacencyHints pg (c\<lparr>witnessedPostIds := snd ?a\<rparr>) ?new,
                     (key, Stored3 (Some 100) (snd ?a)
                        (adjacencyHints (taggedUpdateAdjacencyHints pg
                           (c\<lparr>witnessedPostIds := snd ?a\<rparr>) ?new))) # st)
               else (Returned RECONCILE_DEFER, c, st))"
    if vt: "validTaggedCursors c" and fp: "taggedIsFirstPage pg"
  proof -
    from vt have v: "validCursors c" by (simp add: validTaggedCursors_def split: if_splits)
    have aug: "True \<longrightarrow> augmentWithAdjacencyHints (taggedContext key pg) = augmentIdentity"
      using tagged_first_page[OF fp] by simp
    let ?c2 = "taggedUpdateAdjacencyHints pg (c\<lparr>witnessedPostIds := snd ?a\<rparr>) ?new"
    have valid: "validTaggedCursors ?c2"
      using tagged_merge_valid[OF vt g gl nlt sl sh, of ?new pg] by simp
    have ne': "snd ?a \<noteq> []" using merge_above_goal(4)[OF v g gl nlt sl sh] by auto
    have fields: "goalPostId ?c2 = Some 100" "witnessedPostIds ?c2 = snd ?a"
      using ne' g by (auto simp: taggedUpdateAdjacencyHints_def Let_def split: option.splits)
    have same: "\<not> fst ?a \<Longrightarrow> c\<lparr>witnessedPostIds := snd ?a\<rparr> = c"
      using add_not_updated[of "witnessedPostIds c" "(101, 110)"] by simp
    from reconcile_newer_batch[OF v g nne gl nlt sl sh aug,
        of "isFirstPage (taggedContext key pg)" "updateAdjacencyHints (taggedContext key pg)"
           "saveCursors (taggedContext key pg)" st]
    show ?thesis using valid fields same
      by (simp add: taggedContext_def saveAndReturn_def taggedSaveCursors_def storageSet_def)
  qed
  have E: "\<exists>(a, b) \<in> set (snd ?a). a \<le> 101 \<and> 110 \<le> b" if v: "validCursors c"
    using merge_above_goal(4)[OF v g gl nlt sl sh] by simp
  from A B C D E show ?thesis by blast
qed

theorem deleted_goal_post_recovery_witness:
  "validTaggedCursors \<lparr>goalPostId = Some 100, witnessedPostIds = [], adjacencyHints = []\<rparr>
   \<and> validCursors \<lparr>goalPostId = Some 100, witnessedPostIds = [], adjacencyHints = []\<rparr>
   \<and> dashboardIsFirstPage \<lparr>whereDashboard = False, whereTagged = True, whereEndless = False,
         pathPageNumber = None, pathSignedPostId = None, tagBase64 = Some ''Zm9v'',
         searchBefore = Some 0, nextPageBefore = Some 8\<rparr>
   \<and> taggedIsFirstPage \<lparr>whereDashboard = False, whereTagged = True, whereEndless = False,
         pathPageNumber = None, pathSignedPostId = None, tagBase64 = Some ''Zm9v'',
         searchBefore = Some 0, nextPageBefore = Some 8\<rparr>
   \<and> reconcile \<lparr>goalPostId = Some 100, witnessedPostIds = [], adjacencyHints = []\<rparr>
        [99, 98, 97, 96, 95, 94, 93, 92, 91, 90] True True augmentIdentity
        (\<lambda>c postIds. c) dashboardSaveCursors []
      = (Returned 99, \<lparr>goalPostId = Some 99, witnessedPostIds = [], adjacencyHints = []\<rparr>,
         [(''cursors:dashboard'', Stored2 (Some 99) [])])
   \<and> reconcile \<lparr>goalPostId = Some 100, witnessedPostIds = [], adjacencyHints = []\<rparr>
        [110, 109, 108, 107, 106, 105, 104, 103, 102, 101] True True augmentIdentity
        (\<lambda>c postIds. c) dashboardSaveCursors []
      = (Returned (- 1),
         \<lparr>goalPostId = Some 100, witnessedPostIds = [(101, 110)], adjacencyHints = []\<rparr>,
         [(''cursors:dashboard'', Stored2 (Some 100) [(101, 110)])])
   \<and> reconcile \<lparr>goalPostId = Some 100, witnessedPostIds = [], adjacencyHints = []\<rparr>
        [110, 109, 108, 107, 106, 105, 104, 103, 102, 101] True True augmentIdentity
        (taggedUpdateAdjacencyHints \<lparr>whereDashboard = False, whereTagged = True,
           whereEndless = False, pathPageNumber = None, pathSignedPostId = None,
           tagBase64 = Some ''Zm9v'', searchBefore = Some 0, nextPageBefore = Some 8\<rparr>)
        (taggedSaveCursors ''cursors:tagged:Zm9v'') []
      = (Returned (- 1),
         \<lparr>goalPostId = Some 100, witnessedPostIds = [(101, 110)], adjacencyHints = [(8, 101)]\<rparr>,
         [(''cursors:tagged:Zm9v'', Stored3 (Some 100) [(101, 110)] [(8, 101)])])"
proof -
  let ?pg = "\<lparr>whereDashboard = False, whereTagged = True, whereEndless = False,
         pathPageNumber = None, pathSignedPostId = None, tagBase64 = Some ''Zm9v'',
         searchBefore = Some 0, nextPageBefore = Some 8\<rparr>"
  let ?c = "\<lparr>goalPostId = Some 100, witnessedPostIds = [], adjacencyHints = []\<rparr>"
  have g: "goalPostId ?c = Some 100" by simp
  have vt: "validTaggedCursors ?c" and v: "validCursors ?c" by (simp_all add: separator_eval)
  have fd: "dashboardIsFirstPage ?pg" by (simp add: dashboardIsFirstPage_def)
  have ft: "taggedIsFirstPage ?pg"
    by (simp add: taggedIsFirstPage_def isSafePositiveInteger_def)
  have fields: "updateAdjacencyHints (dashboardContext ?pg) = (\<lambda>c postIds. c)"
    "saveCursors (dashboardContext ?pg) = dashboardSaveCursors"
    "isFirstPage (dashboardContext ?pg) = True"
    "augmentWithAdjacencyHints (dashboardContext ?pg) = augmentIdentity"
    "updateAdjacencyHints (taggedContext ''cursors:tagged:Zm9v'' ?pg) = taggedUpdateAdjacencyHints ?pg"
    "saveCursors (taggedContext ''cursors:tagged:Zm9v'' ?pg) = taggedSaveCursors ''cursors:tagged:Zm9v''"
    "isFirstPage (taggedContext ''cursors:tagged:Zm9v'' ?pg) = True"
    "augmentWithAdjacencyHints (taggedContext ''cursors:tagged:Zm9v'' ?pg) = augmentIdentity"
    using dashboard_first_page[OF fd] tagged_first_page[OF ft]
    by (simp_all add: dashboardContext_def taggedContext_def)
  have a: "addToSortedDisjointSafeIntegerIntervals (witnessedPostIds ?c) (101, 110)
      = (True, [(101, 110)])"
    by (simp add: addToSortedDisjointSafeIntegerIntervals_def arraySplice_def)
  have u: "taggedUpdateAdjacencyHints ?pg (?c\<lparr>witnessedPostIds := [(101, 110)]\<rparr>)
      [110, 109, 108, 107, 106, 105, 104, 103, 102, 101]
      = \<lparr>goalPostId = Some 100, witnessedPostIds = [(101, 110)], adjacencyHints = [(8, 101)]\<rparr>"
    by (simp add: separator_eval)
  note t = deleted_goal_post_recovery[OF g, of augmentIdentity ?pg "[]" "''cursors:tagged:Zm9v''",
      unfolded fields a fst_conv snd_conv u]
  from t v vt fd ft show ?thesis
    by (simp add: RECONCILE_DEFER_def)
qed

lemma deferred_convergence_dashboard:
  "reconcile \<lparr>goalPostId = Some 100, witnessedPostIds = [], adjacencyHints = []\<rparr>
        [105, 104, 103] True firstPage augmentIdentity
        (updateAdjacencyHints (dashboardContext pg)) (saveCursors (dashboardContext pg)) st
      = (Returned RECONCILE_DEFER,
         \<lparr>goalPostId = Some 100, witnessedPostIds = [(103, 105)], adjacencyHints = []\<rparr>,
         (''cursors:dashboard'', Stored2 (Some 100) [(103, 105)]) # st)"
  "reconcile \<lparr>goalPostId = Some 100, witnessedPostIds = [(103, 105)], adjacencyHints = []\<rparr>
        [103, 102, 101, 100, 99] False firstPage augmentIdentity
        (updateAdjacencyHints (dashboardContext pg)) (saveCursors (dashboardContext pg))
        ((''cursors:dashboard'', Stored2 (Some 100) [(103, 105)]) # st)
      = (Returned 100,
         \<lparr>goalPostId = Some 105, witnessedPostIds = [], adjacencyHints = []\<rparr>,
         (''cursors:dashboard'', Stored2 (Some 105) [])
           # (''cursors:dashboard'', Stored2 (Some 100) [(103, 105)]) # st)"
  by (simp_all add: separator_eval dashboardContext_def)

lemma deferred_convergence_tagged:
  "reconcile \<lparr>goalPostId = Some 100, witnessedPostIds = [], adjacencyHints = []\<rparr>
        [105, 104, 103] True firstPage augmentIdentity
        (updateAdjacencyHints (taggedContext key pg)) (saveCursors (taggedContext key pg)) st
      = (Returned RECONCILE_DEFER,
         taggedUpdateAdjacencyHints pg
           \<lparr>goalPostId = Some 100, witnessedPostIds = [(103, 105)], adjacencyHints = []\<rparr>
           [105, 104, 103],
         (key, Stored3 (Some 100) [(103, 105)]
            (adjacencyHints (taggedUpdateAdjacencyHints pg
               \<lparr>goalPostId = Some 100, witnessedPostIds = [(103, 105)], adjacencyHints = []\<rparr>
               [105, 104, 103]))) # st)"
  "reconcile
        (taggedUpdateAdjacencyHints pg
           \<lparr>goalPostId = Some 100, witnessedPostIds = [(103, 105)], adjacencyHints = []\<rparr>
           [105, 104, 103])
        [103, 102, 101, 100, 99] False firstPage augmentIdentity
        (updateAdjacencyHints (taggedContext key pg)) (saveCursors (taggedContext key pg)) st1
      = (Returned 100,
         \<lparr>goalPostId = Some 105, witnessedPostIds = [], adjacencyHints = []\<rparr>,
         (key, Stored3 (Some 105) [] []) # st1)"
  "goalPostId (taggedUpdateAdjacencyHints pg
           \<lparr>goalPostId = Some 100, witnessedPostIds = [(103, 105)], adjacencyHints = []\<rparr>
           [105, 104, 103]) = Some 100"
  "witnessedPostIds (taggedUpdateAdjacencyHints pg
           \<lparr>goalPostId = Some 100, witnessedPostIds = [(103, 105)], adjacencyHints = []\<rparr>
           [105, 104, 103]) = [(103, 105)]"
  by (auto simp add: separator_eval taggedContext_def split: option.splits)

text \<open>
  Claim C1. From the valid cursors with goal post \<open>100\<close> and no witnessed interval, an
  initial pass over \<open>105, 104, 103\<close> with the identity augmentation returns
  \<open>RECONCILE_DEFER\<close> and persists the witnessed intervals \<open>[[103, 105]]\<close> with the goal
  post unchanged; a following pass (not initial) over \<open>103, 102, 101, 100, 99\<close> reaches
  the goal post, returns \<open>100\<close>, sets the goal post to \<open>105\<close> and leaves no witnessed
  interval. This holds in the dashboard and in a tagged view, on any page and store.
\<close>

theorem deferred_convergence:
  "validCursors \<lparr>goalPostId = Some 100, witnessedPostIds = [], adjacencyHints = []\<rparr>
   \<and> validTaggedCursors \<lparr>goalPostId = Some 100, witnessedPostIds = [], adjacencyHints = []\<rparr>
   \<and> reconcile \<lparr>goalPostId = Some 100, witnessedPostIds = [], adjacencyHints = []\<rparr>
        [105, 104, 103] True firstPage augmentIdentity
        (updateAdjacencyHints (dashboardContext pg)) (saveCursors (dashboardContext pg)) st
      = (Returned RECONCILE_DEFER,
         \<lparr>goalPostId = Some 100, witnessedPostIds = [(103, 105)], adjacencyHints = []\<rparr>,
         (''cursors:dashboard'', Stored2 (Some 100) [(103, 105)]) # st)
   \<and> reconcile \<lparr>goalPostId = Some 100, witnessedPostIds = [(103, 105)], adjacencyHints = []\<rparr>
        [103, 102, 101, 100, 99] False firstPage augmentIdentity
        (updateAdjacencyHints (dashboardContext pg)) (saveCursors (dashboardContext pg))
        ((''cursors:dashboard'', Stored2 (Some 100) [(103, 105)]) # st)
      = (Returned 100,
         \<lparr>goalPostId = Some 105, witnessedPostIds = [], adjacencyHints = []\<rparr>,
         (''cursors:dashboard'', Stored2 (Some 105) [])
           # (''cursors:dashboard'', Stored2 (Some 100) [(103, 105)]) # st)
   \<and> reconcile \<lparr>goalPostId = Some 100, witnessedPostIds = [], adjacencyHints = []\<rparr>
        [105, 104, 103] True firstPage augmentIdentity
        (updateAdjacencyHints (taggedContext key pg)) (saveCursors (taggedContext key pg)) st
      = (Returned RECONCILE_DEFER,
         taggedUpdateAdjacencyHints pg
           \<lparr>goalPostId = Some 100, witnessedPostIds = [(103, 105)], adjacencyHints = []\<rparr>
           [105, 104, 103],
         (key, Stored3 (Some 100) [(103, 105)]
            (adjacencyHints (taggedUpdateAdjacencyHints pg
               \<lparr>goalPostId = Some 100, witnessedPostIds = [(103, 105)], adjacencyHints = []\<rparr>
               [105, 104, 103]))) # st)
   \<and> goalPostId (taggedUpdateAdjacencyHints pg
           \<lparr>goalPostId = Some 100, witnessedPostIds = [(103, 105)], adjacencyHints = []\<rparr>
           [105, 104, 103]) = Some 100
   \<and> witnessedPostIds (taggedUpdateAdjacencyHints pg
           \<lparr>goalPostId = Some 100, witnessedPostIds = [(103, 105)], adjacencyHints = []\<rparr>
           [105, 104, 103]) = [(103, 105)]
   \<and> reconcile
        (taggedUpdateAdjacencyHints pg
           \<lparr>goalPostId = Some 100, witnessedPostIds = [(103, 105)], adjacencyHints = []\<rparr>
           [105, 104, 103])
        [103, 102, 101, 100, 99] False firstPage augmentIdentity
        (updateAdjacencyHints (taggedContext key pg)) (saveCursors (taggedContext key pg)) st1
      = (Returned 100,
         \<lparr>goalPostId = Some 105, witnessedPostIds = [], adjacencyHints = []\<rparr>,
         (key, Stored3 (Some 105) [] []) # st1)"
proof -
  have v: "validCursors \<lparr>goalPostId = Some 100, witnessedPostIds = [], adjacencyHints = []\<rparr>"
    "validTaggedCursors \<lparr>goalPostId = Some 100, witnessedPostIds = [], adjacencyHints = []\<rparr>"
    by (simp_all add: separator_eval)
  from v deferred_convergence_dashboard deferred_convergence_tagged
  show ?thesis by simp
qed

theorem deferred_convergence_witness:
  "reconcile \<lparr>goalPostId = Some 100, witnessedPostIds = [], adjacencyHints = []\<rparr>
        [105, 104, 103] True True augmentIdentity (\<lambda>c postIds. c) dashboardSaveCursors []
      = (Returned (- 1),
         \<lparr>goalPostId = Some 100, witnessedPostIds = [(103, 105)], adjacencyHints = []\<rparr>,
         [(''cursors:dashboard'', Stored2 (Some 100) [(103, 105)])])
   \<and> reconcile \<lparr>goalPostId = Some 100, witnessedPostIds = [(103, 105)], adjacencyHints = []\<rparr>
        [103, 102, 101, 100, 99] False True augmentIdentity (\<lambda>c postIds. c) dashboardSaveCursors
        [(''cursors:dashboard'', Stored2 (Some 100) [(103, 105)])]
      = (Returned 100,
         \<lparr>goalPostId = Some 105, witnessedPostIds = [], adjacencyHints = []\<rparr>,
         [(''cursors:dashboard'', Stored2 (Some 105) []),
          (''cursors:dashboard'', Stored2 (Some 100) [(103, 105)])])"
proof -
  let ?pg = "\<lparr>whereDashboard = True, whereTagged = False, whereEndless = True,
         pathPageNumber = None, pathSignedPostId = None, tagBase64 = None,
         searchBefore = None, nextPageBefore = None\<rparr>"
  have fields: "updateAdjacencyHints (dashboardContext ?pg) = (\<lambda>c postIds. c)"
    "saveCursors (dashboardContext ?pg) = dashboardSaveCursors"
    by (simp_all add: dashboardContext_def)
  from deferred_convergence[of True ?pg "[]"] show ?thesis
    unfolding fields by (simp add: RECONCILE_DEFER_def)
qed

end
